theory Spec2Isabelle
  imports Main "HOL-Library.Word" "HOL-Library.Sublist" "HOL-Library.AList"
begin

section \<open>Data model\<close>

text \<open>
  The content of an event is a Go \<^verbatim>\<open>map[string]interface{}\<close> decoded from JSON. A value
  of \<^verbatim>\<open>interface{}\<close> is one of the JSON shapes; the type assertion \<^verbatim>\<open>m.(string)\<close>
  succeeds exactly on \<open>JString\<close>. A missing key reads as the nil interface, which is not
  a string either.
\<close>

datatype jvalue =
    JNull
  | JBool bool
  | JNumber int
  | JString string
  | JArray "jvalue list"
  | JObject "(string \<times> jvalue) list"

text \<open>
  Modelled from the spec: the declaration of the struct \<^verbatim>\<open>Event\<close> is not among the source
  files; only its uses are (\<^verbatim>\<open>event.Type\<close>, \<^verbatim>\<open>event.StateKey\<close> of type \<^verbatim>\<open>*string\<close>,
  \<^verbatim>\<open>event.FrameID\<close>, \<^verbatim>\<open>event.Content["membership"]\<close>). The fields follow section 3 of the
  specification: type, optional state-key, sender, frame identifier (attached during
  reconciliation), content, and the protocol metadata. A nil \<^verbatim>\<open>StateKey\<close> is \<open>None\<close>.
\<close>

record Event =
  StateKey :: "string option"
  Sender :: string
  Type :: string
  Timestamp :: int
  EventID :: string
  FrameID :: string
  Redacts :: string
  Content :: "string \<rightharpoonup> jvalue"

text \<open>
  A \<^verbatim>\<open>*Event\<close> that is not nil is the address of a variable of type \<^verbatim>\<open>Event\<close>; the
  memory gives the value each variable holds. Addresses are handed out in increasing
  order.
\<close>

type_synonym ref = nat

type_synonym memory = "ref \<Rightarrow> Event"

text \<open>
  \<^verbatim>\<open>type Frame struct { ID string; State map[string]map[string]*Event }\<close>.
  The state table is a map of maps of pointers: it holds the addresses that
  \<^verbatim>\<open>UpdateState\<close> was given, not copies of the events.
\<close>

record Frame =
  ID :: string
  State :: "string \<rightharpoonup> (string \<rightharpoonup> ref)"

text \<open>
  A panic carries a value other than nil, which \<^verbatim>\<open>recover\<close> returns; it is represented
  by the text that \<^verbatim>\<open>%s\<close> prints for it. Dereferencing a nil pointer panics with Go's
  run-time error.
\<close>

type_synonym panic = string

definition nil_dereference :: panic where
  "nil_dereference = ''runtime error: invalid memory address or nil pointer dereference''"

subsection \<open>frame.go\<close>

definition NewFrame :: "string \<Rightarrow> Frame" where
  "NewFrame frameID = \<lparr>ID = frameID, State = Map.empty\<rparr>"

text \<open>
  \<^verbatim>\<open>UpdateState(event *Event)\<close> reads \<^verbatim>\<open>event.Type\<close> and \<^verbatim>\<open>*event.StateKey\<close> in the
  memory and stores the pointer itself. It first makes sure that the inner map for the
  event type exists and only then evaluates \<^verbatim>\<open>*event.StateKey\<close>: with a nil state-key the
  inner map has already been created when the dereference panics.
\<close>

definition UpdateState :: "memory \<Rightarrow> Frame \<Rightarrow> ref \<Rightarrow> Frame \<times> panic option" where
  "UpdateState mem frame event =
     (let inner = (case State frame (Type (mem event)) of None \<Rightarrow> Map.empty | Some m \<Rightarrow> m);
          st = (State frame)(Type (mem event) \<mapsto> inner)
      in case StateKey (mem event) of
           None \<Rightarrow> (frame\<lparr>State := st\<rparr>, Some nil_dereference)
         | Some k \<Rightarrow> (frame\<lparr>State := st(Type (mem event) \<mapsto> inner(k \<mapsto> event))\<rparr>, None))"

text \<open>\<^verbatim>\<open>GetStateEvent\<close> returns the stored pointer, or nil (\<open>None\<close>).\<close>

definition GetStateEvent :: "Frame \<Rightarrow> string \<Rightarrow> string \<Rightarrow> ref option" where
  "GetStateEvent frame eventType stateKey =
     (case State frame eventType of None \<Rightarrow> None | Some stateEventMap \<Rightarrow> stateEventMap stateKey)"

definition GetMembershipState :: "memory \<Rightarrow> Frame \<Rightarrow> string \<Rightarrow> string" where
  "GetMembershipState mem frame userID =
     (case GetStateEvent frame ''m.frame.member'' userID of
        None \<Rightarrow> ''leave''
      | Some event \<Rightarrow>
          (case Content (mem event) ''membership'' of
             Some (JString mState) \<Rightarrow> mState
           | _ \<Rightarrow> ''leave''))"

subsection \<open>store.go\<close>

text \<open>
  \<^verbatim>\<open>InMemoryStore\<close>, the implementation of \<^verbatim>\<open>Storer\<close> that \<^verbatim>\<open>NewClient\<close> installs. Reading
  a missing key of a Go map gives the zero value: the empty string, or the nil \<^verbatim>\<open>*Frame\<close>.
  The store keeps pointers to frames; a \<^verbatim>\<open>*Frame\<close> held by the syncer is represented by the
  key under which the store holds that frame.
\<close>

record InMemoryStore =
  Filters :: "string \<rightharpoonup> string"
  NextBatches :: "string \<rightharpoonup> string"
  Frames :: "string \<rightharpoonup> Frame"

definition NewInMemoryStore :: InMemoryStore where
  "NewInMemoryStore = \<lparr>Filters = Map.empty, NextBatches = Map.empty, Frames = Map.empty\<rparr>"

definition SaveFilterID :: "InMemoryStore \<Rightarrow> string \<Rightarrow> string \<Rightarrow> InMemoryStore" where
  "SaveFilterID s userID filterID = s\<lparr>Filters := (Filters s)(userID \<mapsto> filterID)\<rparr>"

definition LoadFilterID :: "InMemoryStore \<Rightarrow> string \<Rightarrow> string" where
  "LoadFilterID s userID = (case Filters s userID of None \<Rightarrow> [] | Some v \<Rightarrow> v)"

definition SaveNextBatch :: "InMemoryStore \<Rightarrow> string \<Rightarrow> string \<Rightarrow> InMemoryStore" where
  "SaveNextBatch s userID nextBatchToken =
     s\<lparr>NextBatches := (NextBatches s)(userID \<mapsto> nextBatchToken)\<rparr>"

definition LoadNextBatch :: "InMemoryStore \<Rightarrow> string \<Rightarrow> string" where
  "LoadNextBatch s userID = (case NextBatches s userID of None \<Rightarrow> [] | Some v \<Rightarrow> v)"

definition SaveFrame :: "InMemoryStore \<Rightarrow> Frame \<Rightarrow> InMemoryStore" where
  "SaveFrame s frame = s\<lparr>Frames := (Frames s)(ID frame \<mapsto> frame)\<rparr>"

definition LoadFrame :: "InMemoryStore \<Rightarrow> string \<Rightarrow> Frame option" where
  "LoadFrame s frameID = Frames s frameID"

subsection \<open>The /sync response\<close>

text \<open>
  \<^verbatim>\<open>RespSync\<close>. The three buckets are Go maps keyed by frame ID. \<^verbatim>\<open>range\<close> visits the
  entries of a map in an order the language leaves open, so a bucket is the list of its
  entries in the order in which \<^verbatim>\<open>range\<close> yields them; \<^verbatim>\<open>delete\<close> removes a key.
\<close>

record LeftFrame =
  LeaveState :: "Event list"
  LeaveTimeline :: "Event list"
  LeaveLimited :: bool
  LeavePrevBatch :: string

record JoinedFrame =
  JoinState :: "Event list"
  JoinTimeline :: "Event list"
  JoinLimited :: bool
  JoinPrevBatch :: string
  JoinEphemeral :: "Event list"

record InvitedFrame =
  InviteState :: "Event list"

record RespSync =
  NextBatch :: string
  AccountData :: "Event list"
  Presence :: "Event list"
  Leave :: "(string \<times> LeftFrame) list"
  Join :: "(string \<times> JoinedFrame) list"
  Invite :: "(string \<times> InvitedFrame) list"

subsection \<open>Effects\<close>

text \<open>
  The code acts on the store, calls the subscriber's callbacks and, in \<^verbatim>\<open>Client.Sync\<close>,
  the transport and the clock. The world is the store, the state \<open>'u\<close> of the subscriber
  (whatever the callbacks read and write), the log of the calls made so far, in order,
  the memory of the event variables, and the next address not yet handed out. A log
  entry for \<^verbatim>\<open>UpdateState\<close> or for a callback holds the pointer that was passed and
  the event the variable held at the call. An \<^verbatim>\<open>error\<close> is represented by its message.
\<close>

type_synonym error = string

datatype action =
    ALoadFrame string
  | ASaveFrame string
  | AUpdateState string ref Event
  | AListener string nat ref Event
  | ALoadNextBatch string
  | ASaveNextBatch string string
  | ALoadFilterID string
  | ASaveFilterID string string
  | AGetFilterJSON string
  | ACreateFilter string
  | ASyncRequest string string
  | AOnFailedSync error
  | AProcessResponse string
  | ASleep int

record 'u world =
  store :: InMemoryStore
  ustate :: 'u
  trace :: "action list"
  events :: memory
  fresh :: ref

definition emit :: "action \<Rightarrow> 'u world \<Rightarrow> 'u world" where
  "emit a w = w\<lparr>trace := trace w @ [a]\<rparr>"

text \<open>
  A step that may panic returns the world it reached and the panic, if any: what was
  done before the panic stays done.
\<close>

type_synonym 'u proc = "'u world \<Rightarrow> 'u world \<times> panic option"

definition seq :: "'u proc \<Rightarrow> 'u proc \<Rightarrow> 'u proc" where
  "seq f g w = (case f w of (w', None) \<Rightarrow> g w' | (w', Some p) \<Rightarrow> (w', Some p))"

fun forEach :: "('a \<Rightarrow> 'u proc) \<Rightarrow> 'a list \<Rightarrow> 'u proc" where
  "forEach body [] w = (w, None)"
| "forEach body (x # xs) w =
     (case body x w of (w', None) \<Rightarrow> forEach body xs w' | (w', Some p) \<Rightarrow> (w', Some p))"

text \<open>
  \<^verbatim>\<open>for _, event := range events { ... &event ... }\<close>: the body takes the address of the
  range variable, and what that address is depends on the language version the code is
  built with; the source files do not fix it. Up to Go 1.21 the statement declares one
  variable, which every iteration assigns the next element to; from Go 1.22 on every
  iteration declares a variable of its own. The body gets the address.
\<close>

datatype loopvars = PerLoop | PerIteration

definition declare_var :: "Event \<Rightarrow> 'u world \<Rightarrow> 'u world" where
  "declare_var x w = w\<lparr>events := (events w)(fresh w := x), fresh := Suc (fresh w)\<rparr>"

definition assign_var :: "ref \<Rightarrow> Event \<Rightarrow> 'u world \<Rightarrow> 'u world" where
  "assign_var p x w = w\<lparr>events := (events w)(p := x)\<rparr>"

definition range_events :: "loopvars \<Rightarrow> (ref \<Rightarrow> 'u proc) \<Rightarrow> Event list \<Rightarrow> 'u proc" where
  "range_events go body xs w =
     (case go of
        PerIteration \<Rightarrow> forEach (\<lambda>x v. body (fresh v) (declare_var x v)) xs w
      | PerLoop \<Rightarrow> forEach (\<lambda>x v. body (fresh w) (assign_var (fresh w) x v)) xs (w\<lparr>fresh := Suc (fresh w)\<rparr>))"

subsection \<open>The default syncer\<close>

text \<open>
  \<^verbatim>\<open>type OnEventListener func(*Event)\<close>: a callback reads the event behind the pointer,
  acts on the subscriber's state and returns, or panics. Modelled from the spec: a
  callback is the subscriber's code and not among the source files; section 2 of the
  specification takes an event to be immutable and section 5 gives the callbacks no
  access to the state tables during a run, so a callback neither writes through the
  pointer nor touches the store.
\<close>

type_synonym 'u OnEventListener = "Event \<Rightarrow> 'u \<Rightarrow> 'u \<times> panic option"

record 'u DefaultSyncer =
  UserID :: string
  listeners :: "string \<rightharpoonup> 'u OnEventListener list"

definition NewDefaultSyncer :: "string \<Rightarrow> 'u DefaultSyncer" where
  "NewDefaultSyncer userID = \<lparr>UserID = userID, listeners = Map.empty\<rparr>"

definition OnEventType ::
  "'u DefaultSyncer \<Rightarrow> string \<Rightarrow> 'u OnEventListener \<Rightarrow> 'u DefaultSyncer" where
  "OnEventType s eventType callback =
     s\<lparr>listeners := (listeners s)(eventType \<mapsto>
          (case listeners s eventType of None \<Rightarrow> [] | Some fns \<Rightarrow> fns) @ [callback])\<rparr>"

text \<open>
  The reverse scan of one joined frame's timeline, written over the reversed list. A
  membership event of the syncing user whose membership is a string other than
  \<^verbatim>\<open>join\<close> does not stop the scan, and neither does one whose membership is not a string.
\<close>

fun scan_timeline :: "string \<Rightarrow> string \<Rightarrow> Event list \<Rightarrow> RespSync \<Rightarrow> RespSync" where
  "scan_timeline userID frameID [] resp = resp"
| "scan_timeline userID frameID (e # es) resp =
     (if Type e = ''m.frame.member'' \<and> StateKey e \<noteq> None \<and> the (StateKey e) = userID then
        (case Content e ''membership'' of
           Some (JString mship) \<Rightarrow>
             (if mship = ''join'' then
                (if map_of (Join resp) frameID = None then scan_timeline userID frameID es resp
                 else resp\<lparr>Join := AList.delete frameID (Join resp),
                           Invite := AList.delete frameID (Invite resp)\<rparr>)
              else scan_timeline userID frameID es resp)
         | _ \<Rightarrow> scan_timeline userID frameID es resp)
      else scan_timeline userID frameID es resp)"

text \<open>
  The outer loop ranges over the joined bucket as it was when the loop started; the only
  entry the body deletes is the one being visited.
\<close>

fun scan_frames :: "string \<Rightarrow> (string \<times> JoinedFrame) list \<Rightarrow> RespSync \<Rightarrow> RespSync" where
  "scan_frames userID [] resp = resp"
| "scan_frames userID ((frameID, frameData) # rest) resp =
     scan_frames userID rest (scan_timeline userID frameID (rev (JoinTimeline frameData)) resp)"

text \<open>The response is changed in place; the model returns it beside the verdict.\<close>

definition shouldProcessResponse ::
  "'u DefaultSyncer \<Rightarrow> RespSync \<Rightarrow> string \<Rightarrow> bool \<times> RespSync" where
  "shouldProcessResponse s resp since =
     (if since = [] then (False, resp)
      else (True, scan_frames (UserID s) (Join resp) resp))"

definition getOrCreateFrame :: "string \<Rightarrow> 'u world \<Rightarrow> 'u world" where
  "getOrCreateFrame frameID w =
     (let w1 = emit (ALoadFrame frameID) w
      in case LoadFrame (store w1) frameID of
           None \<Rightarrow>
             (let frame = NewFrame frameID
              in emit (ASaveFrame (ID frame)) (w1\<lparr>store := SaveFrame (store w1) frame\<rparr>))
         | Some frame \<Rightarrow> w1)"

fun call_listeners ::
  "string \<Rightarrow> nat \<Rightarrow> 'u OnEventListener list \<Rightarrow> ref \<Rightarrow> 'u proc" where
  "call_listeners ty i [] event w = (w, None)"
| "call_listeners ty i (fn # fns) event w =
     (case fn (events w event) (ustate w) of
        (u', r) \<Rightarrow>
          (let w' = emit (AListener ty i event (events w event)) (w\<lparr>ustate := u'\<rparr>)
           in case r of
                Some p \<Rightarrow> (w', Some p)
              | None \<Rightarrow> call_listeners ty (Suc i) fns event w'))"

definition notifyListeners :: "'u DefaultSyncer \<Rightarrow> ref \<Rightarrow> 'u proc" where
  "notifyListeners s event w =
     (case listeners s (Type (events w event)) of
        None \<Rightarrow> (w, None)
      | Some fns \<Rightarrow> call_listeners (Type (events w event)) 0 fns event w)"

text \<open>
  The call \<^verbatim>\<open>frame.UpdateState(&event)\<close> through the pointer that \<^verbatim>\<open>getOrCreateFrame\<close>
  returned: the frame the store holds under \<open>frameID\<close> is updated in place. After
  \<^verbatim>\<open>getOrCreateFrame\<close> the pointer is not nil; calling the method, which has a value
  receiver, through a nil pointer would dereference it.
\<close>

definition frame_UpdateState :: "string \<Rightarrow> ref \<Rightarrow> 'u proc" where
  "frame_UpdateState frameID event w =
     (let w1 = emit (AUpdateState frameID event (events w event)) w
      in case Frames (store w1) frameID of
           None \<Rightarrow> (w1, Some nil_dereference)
         | Some frame \<Rightarrow>
             (case UpdateState (events w1) frame event of
                (frame', r) \<Rightarrow>
                  (w1\<lparr>store := (store w1)\<lparr>Frames := (Frames (store w1))(frameID \<mapsto> frame')\<rparr>\<rparr>, r)))"

text \<open>\<^verbatim>\<open>event.FrameID = frameID\<close>, an assignment to a field of the range variable.\<close>

definition set_FrameID :: "string \<Rightarrow> ref \<Rightarrow> 'u world \<Rightarrow> 'u world" where
  "set_FrameID frameID event w = assign_var event ((events w event)\<lparr>FrameID := frameID\<rparr>) w"

text \<open>
  The bodies of the loops over events; \<open>event\<close> is the address of the range variable,
  which holds the current element.
\<close>

definition state_event :: "'u DefaultSyncer \<Rightarrow> string \<Rightarrow> ref \<Rightarrow> 'u proc" where
  "state_event s frameID event =
     seq (\<lambda>w. (set_FrameID frameID event w, None))
       (seq (frame_UpdateState frameID event) (notifyListeners s event))"

definition plain_event :: "'u DefaultSyncer \<Rightarrow> string \<Rightarrow> ref \<Rightarrow> 'u proc" where
  "plain_event s frameID event =
     seq (\<lambda>w. (set_FrameID frameID event w, None)) (notifyListeners s event)"

definition left_event :: "'u DefaultSyncer \<Rightarrow> string \<Rightarrow> ref \<Rightarrow> 'u proc" where
  "left_event s frameID event w =
     (if StateKey (events w event) \<noteq> None then state_event s frameID event w else (w, None))"

definition join_frame :: "loopvars \<Rightarrow> 'u DefaultSyncer \<Rightarrow> string \<times> JoinedFrame \<Rightarrow> 'u proc" where
  "join_frame go s entry =
     (case entry of (frameID, frameData) \<Rightarrow>
        seq (\<lambda>w. (getOrCreateFrame frameID w, None))
         (seq (range_events go (state_event s frameID) (JoinState frameData))
           (seq (range_events go (plain_event s frameID) (JoinTimeline frameData))
                (range_events go (plain_event s frameID) (JoinEphemeral frameData)))))"

definition invite_frame :: "loopvars \<Rightarrow> 'u DefaultSyncer \<Rightarrow> string \<times> InvitedFrame \<Rightarrow> 'u proc" where
  "invite_frame go s entry =
     (case entry of (frameID, frameData) \<Rightarrow>
        seq (\<lambda>w. (getOrCreateFrame frameID w, None))
            (range_events go (state_event s frameID) (InviteState frameData)))"

definition leave_frame :: "loopvars \<Rightarrow> 'u DefaultSyncer \<Rightarrow> string \<times> LeftFrame \<Rightarrow> 'u proc" where
  "leave_frame go s entry =
     (case entry of (frameID, frameData) \<Rightarrow>
        seq (\<lambda>w. (getOrCreateFrame frameID w, None))
            (range_events go (left_event s frameID) (LeaveTimeline frameData)))"

definition join_pass :: "loopvars \<Rightarrow> 'u DefaultSyncer \<Rightarrow> RespSync \<Rightarrow> 'u proc" where
  "join_pass go s res = forEach (join_frame go s) (Join res)"

definition invite_pass :: "loopvars \<Rightarrow> 'u DefaultSyncer \<Rightarrow> RespSync \<Rightarrow> 'u proc" where
  "invite_pass go s res = forEach (invite_frame go s) (Invite res)"

definition leave_pass :: "loopvars \<Rightarrow> 'u DefaultSyncer \<Rightarrow> RespSync \<Rightarrow> 'u proc" where
  "leave_pass go s res = forEach (leave_frame go s) (Leave res)"

definition main_pass :: "loopvars \<Rightarrow> 'u DefaultSyncer \<Rightarrow> RespSync \<Rightarrow> 'u proc" where
  "main_pass go s res =
     seq (join_pass go s res) (seq (invite_pass go s res) (leave_pass go s res))"

text \<open>
  \<^verbatim>\<open>fmt.Errorf("ProcessResponse panicked! userID=%s since=%s panic=%s\n%s", ...)\<close>; the
  last argument is the text of \<^verbatim>\<open>debug.Stack()\<close>, which the run time supplies.
\<close>

definition panic_error :: "string \<Rightarrow> string \<Rightarrow> panic \<Rightarrow> string \<Rightarrow> error" where
  "panic_error userID since r stack =
     ''ProcessResponse panicked! userID='' @ userID @ '' since='' @ since
       @ '' panic='' @ r @ [CHR 0x0A] @ stack"

text \<open>
  \<^verbatim>\<open>ProcessResponse\<close>: the deferred \<^verbatim>\<open>recover\<close> is installed after the should-process
  check and turns a panic of the main pass into the returned error.
\<close>

definition ProcessResponse ::
  "loopvars \<Rightarrow> 'u DefaultSyncer \<Rightarrow> string \<Rightarrow> RespSync \<Rightarrow> string \<Rightarrow> 'u world
     \<Rightarrow> 'u world \<times> error option" where
  "ProcessResponse go s stack res since w =
     (case shouldProcessResponse s res since of
        (False, res') \<Rightarrow> (w, None)
      | (True, res') \<Rightarrow>
          (case main_pass go s res' w of
             (w', None) \<Rightarrow> (w', None)
           | (w', Some r) \<Rightarrow> (w', Some (panic_error (UserID s) since r stack))))"

definition OnFailedSync ::
  "'u DefaultSyncer \<Rightarrow> RespSync option \<Rightarrow> error \<Rightarrow> int \<times> error option" where
  "OnFailedSync s res err = (10 * 1000000000, None)"

definition GetFilterJSON :: "'u DefaultSyncer \<Rightarrow> string \<Rightarrow> string" where
  "GetFilterJSON s userID =
     ''{'' @ [CHR 0x22] @ ''frame'' @ [CHR 0x22] @ '':{'' @ [CHR 0x22] @ ''timeline'' @ [CHR 0x22]
       @ '':{'' @ [CHR 0x22] @ ''limit'' @ [CHR 0x22] @ '':50}}}''"

subsection \<open>client.go\<close>

text \<open>
  Of \<^verbatim>\<open>Client\<close> the sync loop uses the user ID, the syncer, the store (in the world) and the
  counter \<^verbatim>\<open>syncingID uint32\<close>, which a mutex protects: each call below is one critical
  section, so calls from several goroutines happen one after the other.
\<close>

record Client =
  cliUserID :: string
  syncingID :: "32 word"

definition NewClient :: "string \<Rightarrow> Client" where
  "NewClient userID = \<lparr>cliUserID = userID, syncingID = 0\<rparr>"

definition incrementSyncingID :: "Client \<Rightarrow> Client \<times> 32 word" where
  "incrementSyncingID cli =
     (let cli' = cli\<lparr>syncingID := syncingID cli + 1\<rparr> in (cli', syncingID cli'))"

definition getSyncingID :: "Client \<Rightarrow> 32 word" where
  "getSyncingID cli = syncingID cli"

definition StopSync :: "Client \<Rightarrow> Client" where
  "StopSync cli = fst (incrementSyncingID cli)"

text \<open>
  The interface \<^verbatim>\<open>Syncer\<close>: any implementation may stand behind \<^verbatim>\<open>cli.Syncer\<close>.
  \<^verbatim>\<open>ProcessResponse\<close> acts on the world; the failure policy acts on the subscriber's state
  and returns the duration (in nanoseconds) and the error or nil.
\<close>

record 'u Syncer =
  ProcessResponse_impl :: "RespSync \<Rightarrow> string \<Rightarrow> 'u world \<Rightarrow> 'u world \<times> error option"
  OnFailedSync_impl :: "RespSync option \<Rightarrow> error \<Rightarrow> 'u \<Rightarrow> 'u \<times> int \<times> error option"
  GetFilterJSON_impl :: "string \<Rightarrow> string"

definition DefaultSyncer_Syncer :: "loopvars \<Rightarrow> 'u DefaultSyncer \<Rightarrow> string \<Rightarrow> 'u Syncer" where
  "DefaultSyncer_Syncer go s stack =
     \<lparr>ProcessResponse_impl = ProcessResponse go s stack,
      OnFailedSync_impl = (\<lambda>res err u. (u, OnFailedSync s res err)),
      GetFilterJSON_impl = GetFilterJSON s\<rparr>"

text \<open>
  What the loop meets from outside in one iteration: the result of \<^verbatim>\<open>SyncRequest\<close>, and
  the number of calls of \<^verbatim>\<open>incrementSyncingID\<close> that other goroutines (\<^verbatim>\<open>Sync\<close>,
  \<^verbatim>\<open>StopSync\<close>) made while the request was in flight. \<^verbatim>\<open>SyncRequest\<close> returns a
  \<^verbatim>\<open>*RespSync\<close> and an error. The pointer may be nil in both cases: \<^verbatim>\<open>MakeRequest\<close>
  decodes the body into it and returns no error when the body of a 2xx answer is the
  JSON value \<^verbatim>\<open>null\<close>, which leaves the pointer nil.
\<close>

datatype fetch = FetchOk "RespSync option" | FetchFailed "RespSync option" error

definition interfere :: "nat \<Rightarrow> Client \<Rightarrow> Client" where
  "interfere k cli = (StopSync ^^ k) cli"

text \<open>
  \<^verbatim>\<open>Sync\<close> returns an error or nil, or it panics: it has no \<^verbatim>\<open>recover\<close> of its own, so a
  nil dereference in its body leaves it as a panic. When the list of iterations the
  environment supplies ends, the loop is still waiting in \<^verbatim>\<open>SyncRequest\<close>.
\<close>

datatype outcome = Returned "error option" | Panicked panic | InFlight

text \<open>
  The loop of \<^verbatim>\<open>Sync\<close>. After a successful fetch the token is compared first; the
  response is dereferenced for the first time in the arguments of \<^verbatim>\<open>SaveNextBatch\<close>, so
  with a nil response the panic comes before that call.
\<close>

fun sync_loop ::
  "'u Syncer \<Rightarrow> 32 word \<Rightarrow> string \<Rightarrow> string \<Rightarrow> (fetch \<times> nat) list
     \<Rightarrow> Client \<Rightarrow> 'u world \<Rightarrow> outcome \<times> Client \<times> 'u world" where
  "sync_loop sy syncingID0 filterID nextBatch [] cli w = (InFlight, cli, w)"
| "sync_loop sy syncingID0 filterID nextBatch ((fetched, k) # env) cli w =
     (let w1 = emit (ASyncRequest nextBatch filterID) w;
          cli1 = interfere k cli
      in case fetched of
           FetchFailed resSync err \<Rightarrow>
             (case OnFailedSync_impl sy resSync err (ustate w1) of
                (u', duration, err2) \<Rightarrow>
                  (let w2 = emit (AOnFailedSync err) (w1\<lparr>ustate := u'\<rparr>)
                   in case err2 of
                        Some e2 \<Rightarrow> (Returned (Some e2), cli1, w2)
                      | None \<Rightarrow>
                          sync_loop sy syncingID0 filterID nextBatch env cli1
                            (emit (ASleep duration) w2)))
         | FetchOk fetched_ptr \<Rightarrow>
             (if getSyncingID cli1 \<noteq> syncingID0 then (Returned None, cli1, w1)
              else
                (case fetched_ptr of
                   None \<Rightarrow> (Panicked nil_dereference, cli1, w1)
                 | Some resSync \<Rightarrow>
                     (let w2 = emit (ASaveNextBatch (cliUserID cli1) (NextBatch resSync))
                                 (w1\<lparr>store := SaveNextBatch (store w1) (cliUserID cli1)
                                                 (NextBatch resSync)\<rparr>)
                      in case ProcessResponse_impl sy resSync nextBatch
                                (emit (AProcessResponse nextBatch) w2) of
                           (w3, Some err) \<Rightarrow> (Returned (Some err), cli1, w3)
                         | (w3, None) \<Rightarrow>
                             sync_loop sy syncingID0 filterID (NextBatch resSync) env cli1 w3))))"

text \<open>
  \<^verbatim>\<open>Sync\<close>: \<open>created\<close> is what \<^verbatim>\<open>CreateFilter\<close> answers if it is called: an error, or
  the \<^verbatim>\<open>*RespCreateFilter\<close>, of which \<^verbatim>\<open>Sync\<close> reads the filter ID and which is nil in the
  same case as above.
\<close>

definition Sync ::
  "'u Syncer \<Rightarrow> error + string option \<Rightarrow> (fetch \<times> nat) list \<Rightarrow> Client \<Rightarrow> 'u world
     \<Rightarrow> outcome \<times> Client \<times> 'u world" where
  "Sync sy created env cli w =
     (case incrementSyncingID cli of
        (cli1, syncingID0) \<Rightarrow>
          (let userID = cliUserID cli1;
               w1 = emit (ALoadNextBatch userID) w;
               nextBatch = LoadNextBatch (store w1) userID;
               w2 = emit (ALoadFilterID userID) w1;
               filterID = LoadFilterID (store w2) userID
           in if filterID = [] then
                (let filterJSON = GetFilterJSON_impl sy userID;
                     w3 = emit (ACreateFilter filterJSON) (emit (AGetFilterJSON userID) w2)
                 in case created of
                      Inl err \<Rightarrow> (Returned (Some err), cli1, w3)
                    | Inr None \<Rightarrow> (Panicked nil_dereference, cli1, w3)
                    | Inr (Some newID) \<Rightarrow>
                        sync_loop sy syncingID0 newID nextBatch env cli1
                          (emit (ASaveFilterID userID newID)
                             (w3\<lparr>store := SaveFilterID (store w3) userID newID\<rparr>)))
              else sync_loop sy syncingID0 filterID nextBatch env cli1 w2))"

text \<open>
  The generation tokens that a sequence of calls issues. \<^verbatim>\<open>Sync\<close> and \<^verbatim>\<open>StopSync\<close> both
  start with \<^verbatim>\<open>incrementSyncingID\<close> and nothing else writes the counter, so the tokens
  depend on the number of calls only.
\<close>

datatype api_call = CallSync | CallStopSync

fun issued_tokens :: "Client \<Rightarrow> api_call list \<Rightarrow> 32 word list" where
  "issued_tokens cli [] = []"
| "issued_tokens cli (c # cs) =
     (case incrementSyncingID cli of (cli', token) \<Rightarrow> token # issued_tokens cli' cs)"

section \<open>Reading the log\<close>

text \<open>
  The frame an entry of the log is about, the event it carries, and the pointer it
  carries with the event. A listener call is about the frame whose ID was attached to
  the event.
\<close>

fun action_frame :: "action \<Rightarrow> string option" where
  "action_frame (ALoadFrame f) = Some f"
| "action_frame (ASaveFrame f) = Some f"
| "action_frame (AUpdateState f p e) = Some f"
| "action_frame (AListener ty i p e) = Some (FrameID e)"
| "action_frame _ = None"



text \<open>
  The event the code compares with in the join-race scan: an \<^verbatim>\<open>m.frame.member\<close> event
  whose state-key is the given user and whose membership is the string \<^verbatim>\<open>join\<close>.
\<close>

definition is_join_event :: "string \<Rightarrow> Event \<Rightarrow> bool" where
  "is_join_event userID e \<longleftrightarrow>
     Type e = ''m.frame.member'' \<and> StateKey e = Some userID
       \<and> Content e ''membership'' = Some (JString ''join'')"

text \<open>
  What the state table of a frame of the store holds under a type and a state-key: a
  pointer, or nothing (also when the store has no such frame).
\<close>

definition slot :: "'u world \<Rightarrow> string \<Rightarrow> string \<Rightarrow> string \<Rightarrow> ref option" where
  "slot w frameID ty key =
     (case Frames (store w) frameID of None \<Rightarrow> None | Some frame \<Rightarrow> GetStateEvent frame ty key)"

text \<open>
  The pointer of the last entry of a log that is a call of \<^verbatim>\<open>UpdateState\<close> on the given
  frame with an event of the given type and state-key.
\<close>

fun last_update :: "string \<Rightarrow> string \<Rightarrow> string \<Rightarrow> action list \<Rightarrow> ref option" where
  "last_update frameID ty key [] = None"
| "last_update frameID ty key (a # as) =
     (case last_update frameID ty key as of
        Some p \<Rightarrow> Some p
      | None \<Rightarrow>
          (case a of
             AUpdateState f p e \<Rightarrow>
               (if f = frameID \<and> Type e = ty \<and> StateKey e = Some key then Some p else None)
           | _ \<Rightarrow> None))"


text \<open>
  What a run from \<open>w\<close> to \<open>w'\<close> did: it appended entries to the log, all of them
  satisfying \<open>Q\<close>; a frame of the store differs only if an entry is about it, and no
  frame went away; the saved positions and filter IDs are as before.
\<close>

definition effects :: "(action \<Rightarrow> bool) \<Rightarrow> 'u world \<Rightarrow> 'u world \<Rightarrow> bool" where
  "effects Q w w' \<longleftrightarrow>
     (\<exists>new. trace w' = trace w @ new \<and> (\<forall>a \<in> set new. Q a)
        \<and> (\<forall>k. Frames (store w') k \<noteq> Frames (store w) k \<longrightarrow> (\<exists>a \<in> set new. action_frame a = Some k)))
     \<and> NextBatches (store w') = NextBatches (store w)
     \<and> Filters (store w') = Filters (store w)
     \<and> (\<forall>k. Frames (store w) k \<noteq> None \<longrightarrow> Frames (store w') k \<noteq> None)"



text \<open>No listener of the syncer panics.\<close>

definition quiet :: "'u DefaultSyncer \<Rightarrow> bool" where
  "quiet s \<longleftrightarrow> (\<forall>ty fns fn e u. listeners s ty = Some fns \<longrightarrow> fn \<in> set fns \<longrightarrow> snd (fn e u) = None)"

text \<open>
  The frames of a joined bucket whose timeline holds a join event of the user, and a
  bucket without the entries of a set of frames.
\<close>

definition suppressed :: "string \<Rightarrow> (string \<times> JoinedFrame) list \<Rightarrow> string set" where
  "suppressed userID items =
     {k. \<exists>fd. (k, fd) \<in> set items \<and> (\<exists>e \<in> set (JoinTimeline fd). is_join_event userID e)}"

definition without :: "string set \<Rightarrow> (string \<times> 'a) list \<Rightarrow> (string \<times> 'a) list" where
  "without S xs = filter (\<lambda>x. fst x \<notin> S) xs"

section \<open>Example inputs\<close>

definition example_member :: "string \<Rightarrow> Event" where
  "example_member mship =
     \<lparr>StateKey = Some ''@bot:x'', Sender = ''@bot:x'', Type = ''m.frame.member'', Timestamp = 2,
      EventID = ''$2'', FrameID = [], Redacts = [], Content = [''membership'' \<mapsto> JString mship]\<rparr>"

definition example_message :: Event where
  "example_message =
     \<lparr>StateKey = None, Sender = ''@a:x'', Type = ''m.frame.message'', Timestamp = 1,
      EventID = ''$1'', FrameID = [], Redacts = [], Content = [''body'' \<mapsto> JString ''hi'']\<rparr>"

definition example_world :: "nat world" where
  "example_world =
     \<lparr>store = NewInMemoryStore, ustate = 0, trace = [], events = (\<lambda>p. example_message), fresh = 0\<rparr>"

definition example_joined :: "Event list \<Rightarrow> Event list \<Rightarrow> JoinedFrame" where
  "example_joined st tml =
     \<lparr>JoinState = st, JoinTimeline = tml, JoinLimited = False, JoinPrevBatch = [], JoinEphemeral = []\<rparr>"

definition example_resp :: "(string \<times> JoinedFrame) list \<Rightarrow> (string \<times> InvitedFrame) list
    \<Rightarrow> (string \<times> LeftFrame) list \<Rightarrow> RespSync" where
  "example_resp j i l =
     \<lparr>NextBatch = ''s2'', AccountData = [], Presence = [], Leave = l, Join = j, Invite = i\<rparr>"

definition example_left :: "Event list \<Rightarrow> LeftFrame" where
  "example_left tml = \<lparr>LeaveState = [], LeaveTimeline = tml, LeaveLimited = False, LeavePrevBatch = []\<rparr>"

definition counting :: "nat OnEventListener" where
  "counting event u = (Suc u, None)"

definition panicking :: "nat OnEventListener" where
  "panicking event u = (u, Some ''boom'')"

definition example_policy :: "nat \<Rightarrow> RespSync option \<Rightarrow> error \<Rightarrow> nat \<Rightarrow> nat \<times> int \<times> error option" where
  "example_policy limit res err u =
     (Suc u, 5 * 1000000000, if limit \<le> u then Some (''gave up: '' @ err) else None)"

definition example_syncer :: "nat \<Rightarrow> nat Syncer" where
  "example_syncer limit =
     \<lparr>ProcessResponse_impl = ProcessResponse PerLoop (NewDefaultSyncer ''@bot:x'') [],
      OnFailedSync_impl = example_policy limit,
      GetFilterJSON_impl = GetFilterJSON (NewDefaultSyncer ''@bot:x'' :: nat DefaultSyncer)\<rparr>"

lemmas ex_defs = example_world_def example_member_def example_message_def example_joined_def
  example_resp_def example_left_def counting_def panicking_def NewInMemoryStore_def NewDefaultSyncer_def OnEventType_def

lemmas run_defs = shouldProcessResponse_def main_pass_def join_pass_def invite_pass_def
  leave_pass_def join_frame_def invite_frame_def
  leave_frame_def seq_def state_event_def plain_event_def left_event_def notifyListeners_def
  frame_UpdateState_def getOrCreateFrame_def emit_def LoadFrame_def SaveFrame_def NewFrame_def
  UpdateState_def SaveNextBatch_def Let_def range_events_def declare_var_def assign_var_def set_FrameID_def


section \<open>Lemmas\<close>

subsection \<open>The generation counter\<close>

lemma Sync_enters_loop:
  assumes "LoadFilterID (store w) (cliUserID cli) \<noteq> []"
  shows "Sync sy created env cli w
           = sync_loop sy (syncingID cli + 1) (LoadFilterID (store w) (cliUserID cli))
               (LoadNextBatch (store w) (cliUserID cli)) env (cli\<lparr>syncingID := syncingID cli + 1\<rparr>)
               (emit (ALoadFilterID (cliUserID cli)) (emit (ALoadNextBatch (cliUserID cli)) w))"
  using assms by (simp add: Sync_def incrementSyncingID_def emit_def Let_def)

lemma interfere_syncingID: "syncingID (interfere k cli) = syncingID cli + of_nat k"
  by (induction k) (simp_all add: interfere_def StopSync_def incrementSyncingID_def)


lemma issued_tokens_length: "length (issued_tokens cli cs) = length cs"
  by (induction cs arbitrary: cli) (simp_all add: incrementSyncingID_def)

lemma issued_tokens_nth:
  "i < length cs \<Longrightarrow> issued_tokens cli cs ! i = syncingID cli + of_nat (Suc i)"
proof (induction cs arbitrary: cli i)
  case Nil
  then show ?case by simp
next
  case (Cons c cs)
  show ?case
  proof (cases i)
    case 0
    then show ?thesis by (simp add: incrementSyncingID_def)
  next
    case (Suc j)
    with Cons.prems have "j < length cs" by simp
    from Cons.IH [OF this, of "cli\<lparr>syncingID := syncingID cli + 1\<rparr>"] Suc
    show ?thesis by (simp add: incrementSyncingID_def add.assoc)
  qed
qed

subsection \<open>Sequencing and loops\<close>

lemma seq_elim:
  assumes "seq f g w = (w', r)"
  obtains (first) "f w = (w', r)" "r \<noteq> None"
        | (both) w1 where "f w = (w1, None)" "g w1 = (w', r)"
  using assms by (auto simp: seq_def split: prod.splits option.splits)

lemma seq_rel:
  assumes "seq f g w = (w', r)"
      and "\<And>v v' q. f v = (v', q) \<Longrightarrow> R v v'"
      and "\<And>v v' q. g v = (v', q) \<Longrightarrow> R v v'"
      and "\<And>a b c. R a b \<Longrightarrow> R b c \<Longrightarrow> R a c"
  shows "R w w'"
  using assms(1)
proof (cases rule: seq_elim)
  case first
  then show ?thesis using assms(2) by blast
next
  case (both w1)
  then show ?thesis using assms(2,3,4) by blast
qed

lemma forEach_rel:
  assumes "forEach body xs w = (w', r)"
      and "\<And>x v v' q. x \<in> set xs \<Longrightarrow> body x v = (v', q) \<Longrightarrow> R v v'"
      and "\<And>a. R a a"
      and "\<And>a b c. R a b \<Longrightarrow> R b c \<Longrightarrow> R a c"
  shows "R w w'"
  using assms(1,2)
proof (induction xs arbitrary: w)
  case Nil
  then show ?case using assms(3) by simp
next
  case (Cons x xs)
  obtain w1 q where b: "body x w = (w1, q)" by (cases "body x w")
  have r1: "R w w1" using Cons.prems(2) [of x w w1 q] b by simp
  show ?case
  proof (cases q)
    case None
    with b Cons.prems(1) have "forEach body xs w1 = (w', r)" by simp
    then have "R w1 w'"
    proof (rule Cons.IH)
      show "R v v'" if "y \<in> set xs" "body y v = (v', q')" for y v v' q'
        using Cons.prems(2) [of y v v' q'] that by simp
    qed
    with r1 show ?thesis using assms(4) by blast
  next
    case (Some p)
    with b Cons.prems(1) have "w' = w1" by simp
    with r1 show ?thesis by simp
  qed
qed

lemma forEach_visits:
  assumes "forEach body xs w = (w', None)"
      and "x \<in> set xs"
      and "\<And>y v v' q. y \<in> set xs \<Longrightarrow> body y v = (v', q) \<Longrightarrow> R v v'"
      and "\<And>a. R a a"
      and "\<And>a b c. R a b \<Longrightarrow> R b c \<Longrightarrow> R a c"
  shows "\<exists>w1 w2. body x w1 = (w2, None) \<and> R w w1 \<and> R w2 w'"
  using assms(1,2,3)
proof (induction xs arbitrary: w)
  case Nil
  then show ?case by simp
next
  case (Cons y ys)
  obtain v q where b: "body y w = (v, q)" by (cases "body y w")
  with Cons.prems(1) have q: "q = None" and rest: "forEach body ys v = (w', None)"
    by (auto split: option.splits)
  have step: "R w v" using Cons.prems(3) [of y w v q] b by simp
  have all: "R v w'"
    using forEach_rel [OF rest, of R] Cons.prems(3) assms(4,5) by (meson list.set_intros(2))
  show ?case
  proof (cases "x = y")
    case True
    with b q step all assms(4) show ?thesis by blast
  next
    case False
    with Cons.prems(2) have "x \<in> set ys" by simp
    from Cons.IH [OF rest this] Cons.prems(3)
    obtain w1 w2 where "body x w1 = (w2, None)" "R v w1" "R w2 w'"
      by (meson list.set_intros(2))
    with step assms(5) show ?thesis by blast
  qed
qed

lemma forEach_panic:
  assumes "forEach body xs w = (w', Some p)"
      and "\<And>x v v'. x \<in> set xs \<Longrightarrow> body x v = (v', Some p) \<Longrightarrow> P"
  shows P
  using assms
proof (induction xs arbitrary: w)
  case Nil
  then show ?case by simp
next
  case (Cons x xs)
  obtain v q where b: "body x w = (v, q)" by (cases "body x w")
  show ?case
  proof (cases q)
    case None
    with b Cons.prems(1) have "forEach body xs v = (w', Some p)" by simp
    then show ?thesis using Cons.IH Cons.prems(2) by (meson list.set_intros(2))
  next
    case (Some p')
    with b Cons.prems(1) have "p' = p" by simp
    with Some b Cons.prems(2) show ?thesis by (meson list.set_intros(1))
  qed
qed

lemma range_events_rel:
  assumes "range_events go body xs w = (w', r)"
      and step: "\<And>x p v v' q. x \<in> set xs \<Longrightarrow> events v p = x \<Longrightarrow> body p v = (v', q) \<Longrightarrow> R v v'"
      and mem: "\<And>v m f. R v (v\<lparr>events := m, fresh := f\<rparr>)"
      and refl: "\<And>a. R a a"
      and trans: "\<And>a b c. R a b \<Longrightarrow> R b c \<Longrightarrow> R a c"
  shows "R w w'"
proof (cases go)
  case PerIteration
  with assms(1) have "forEach (\<lambda>x v. body (fresh v) (declare_var x v)) xs w = (w', r)"
    by (simp add: range_events_def)
  then show ?thesis
  proof (rule forEach_rel)
    show "R v v'" if "x \<in> set xs" "body (fresh v) (declare_var x v) = (v', q)" for x v v' q
    proof -
      have "R v (declare_var x v)" unfolding declare_var_def by (rule mem)
      moreover have "R (declare_var x v) v'"
        using that by (intro step [of x]) (simp_all add: declare_var_def)
      ultimately show ?thesis by (rule trans)
    qed
  qed (rule refl, rule trans)
next
  case PerLoop
  let ?w1 = "w\<lparr>fresh := Suc (fresh w)\<rparr>"
  from PerLoop assms(1)
  have "forEach (\<lambda>x v. body (fresh w) (assign_var (fresh w) x v)) xs ?w1 = (w', r)"
    by (simp add: range_events_def)
  then have "R ?w1 w'"
  proof (rule forEach_rel)
    show "R v v'" if "x \<in> set xs" "body (fresh w) (assign_var (fresh w) x v) = (v', q)" for x v v' q
    proof -
      have "R v (v\<lparr>events := (events v)(fresh w := x), fresh := fresh v\<rparr>)" by (rule mem)
      then have "R v (assign_var (fresh w) x v)" by (simp add: assign_var_def)
      moreover have "R (assign_var (fresh w) x v) v'"
        using that by (intro step [of x]) (simp_all add: assign_var_def)
      ultimately show ?thesis by (rule trans)
    qed
  qed (rule refl, rule trans)
  moreover have "R w (w\<lparr>events := events w, fresh := Suc (fresh w)\<rparr>)" by (rule mem)
  then have "R w ?w1" by simp
  ultimately show ?thesis using trans by blast
qed

lemma range_events_visits:
  assumes "range_events go body xs w = (w', None)"
      and "x \<in> set xs"
      and step: "\<And>y p v v' q. y \<in> set xs \<Longrightarrow> events v p = y \<Longrightarrow> body p v = (v', q) \<Longrightarrow> R v v'"
      and mem: "\<And>v m f. R v (v\<lparr>events := m, fresh := f\<rparr>)"
      and refl: "\<And>a. R a a"
      and trans: "\<And>a b c. R a b \<Longrightarrow> R b c \<Longrightarrow> R a c"
  shows "\<exists>p w1 w2. events w1 p = x \<and> body p w1 = (w2, None) \<and> R w w1 \<and> R w2 w'"
proof (cases go)
  case PerIteration
  let ?step = "\<lambda>x v. body (fresh v) (declare_var x v)"
  from PerIteration assms(1) have "forEach ?step xs w = (w', None)"
    by (simp add: range_events_def)
  then have "\<exists>v1 v2. ?step x v1 = (v2, None) \<and> R w v1 \<and> R v2 w'"
    using assms(2)
  proof (rule forEach_visits)
    show "R v v'" if "y \<in> set xs" "?step y v = (v', q)" for y v v' q
    proof -
      have "R v (declare_var y v)" unfolding declare_var_def by (rule mem)
      moreover have "R (declare_var y v) v'"
        using that by (intro step [of y]) (simp_all add: declare_var_def)
      ultimately show ?thesis by (rule trans)
    qed
  qed (rule refl, rule trans)
  then obtain v1 v2 where b: "body (fresh v1) (declare_var x v1) = (v2, None)"
    and r1: "R w v1" and r2: "R v2 w'" by blast
  have "R v1 (declare_var x v1)" unfolding declare_var_def by (rule mem)
  with r1 have "R w (declare_var x v1)" by (rule trans)
  moreover have "events (declare_var x v1) (fresh v1) = x" by (simp add: declare_var_def)
  ultimately show ?thesis using b r2 by blast
next
  case PerLoop
  let ?w1 = "w\<lparr>fresh := Suc (fresh w)\<rparr>"
  let ?step = "\<lambda>x v. body (fresh w) (assign_var (fresh w) x v)"
  from PerLoop assms(1) have "forEach ?step xs ?w1 = (w', None)"
    by (simp add: range_events_def)
  then have "\<exists>v1 v2. ?step x v1 = (v2, None) \<and> R ?w1 v1 \<and> R v2 w'"
    using assms(2)
  proof (rule forEach_visits)
    show "R v v'" if "y \<in> set xs" "?step y v = (v', q)" for y v v' q
    proof -
      have "R v (v\<lparr>events := (events v)(fresh w := y), fresh := fresh v\<rparr>)" by (rule mem)
      then have "R v (assign_var (fresh w) y v)" by (simp add: assign_var_def)
      moreover have "R (assign_var (fresh w) y v) v'"
        using that by (intro step [of y]) (simp_all add: assign_var_def)
      ultimately show ?thesis by (rule trans)
    qed
  qed (rule refl, rule trans)
  then obtain v1 v2 where b: "body (fresh w) (assign_var (fresh w) x v1) = (v2, None)"
    and r1: "R ?w1 v1" and r2: "R v2 w'" by blast
  have "R w (w\<lparr>events := events w, fresh := Suc (fresh w)\<rparr>)" by (rule mem)
  then have "R w ?w1" by simp
  with r1 have "R w v1" using trans by blast
  moreover have "R v1 (v1\<lparr>events := (events v1)(fresh w := x), fresh := fresh v1\<rparr>)" by (rule mem)
  then have "R v1 (assign_var (fresh w) x v1)" by (simp add: assign_var_def)
  ultimately have "R w (assign_var (fresh w) x v1)" using trans by blast
  moreover have "events (assign_var (fresh w) x v1) (fresh w) = x" by (simp add: assign_var_def)
  ultimately show ?thesis using b r2 by blast
qed

lemma range_events_panic:
  assumes "range_events go body xs w = (w', Some pn)"
      and "\<And>x p v v'. x \<in> set xs \<Longrightarrow> events v p = x \<Longrightarrow> body p v = (v', Some pn) \<Longrightarrow> P"
  shows P
proof (cases go)
  case PerIteration
  with assms(1) have "forEach (\<lambda>x v. body (fresh v) (declare_var x v)) xs w = (w', Some pn)"
    by (simp add: range_events_def)
  then show ?thesis
  proof (rule forEach_panic)
    show P if "x \<in> set xs" "body (fresh v) (declare_var x v) = (v', Some pn)" for x v v'
      using that by (intro assms(2) [of x "declare_var x v" "fresh v" v']) (simp_all add: declare_var_def)
  qed
next
  case PerLoop
  with assms(1)
  have "forEach (\<lambda>x v. body (fresh w) (assign_var (fresh w) x v)) xs (w\<lparr>fresh := Suc (fresh w)\<rparr>)
          = (w', Some pn)"
    by (simp add: range_events_def)
  then show ?thesis
  proof (rule forEach_panic)
    show P if "x \<in> set xs" "body (fresh w) (assign_var (fresh w) x v) = (v', Some pn)" for x v v'
      using that
      by (intro assms(2) [of x "assign_var (fresh w) x v" "fresh w" v']) (simp_all add: assign_var_def)
  qed
qed

subsection \<open>Effects of the steps\<close>

lemma effects_refl: "effects Q w w"
  by (simp add: effects_def)

lemma effects_mem: "effects Q w (w\<lparr>events := m, fresh := f\<rparr>)"
  by (simp add: effects_def)

lemma effects_trans:
  assumes "effects Q a b" and "effects Q b c"
  shows "effects Q a c"
proof -
  from assms(1) obtain n1 where n1: "trace b = trace a @ n1" "\<forall>x \<in> set n1. Q x"
    "\<forall>k. Frames (store b) k \<noteq> Frames (store a) k \<longrightarrow> (\<exists>x \<in> set n1. action_frame x = Some k)"
    and s1: "NextBatches (store b) = NextBatches (store a)" "Filters (store b) = Filters (store a)"
    and h1: "\<forall>k. Frames (store a) k \<noteq> None \<longrightarrow> Frames (store b) k \<noteq> None"
    unfolding effects_def by blast
  from assms(2) obtain n2 where n2: "trace c = trace b @ n2" "\<forall>x \<in> set n2. Q x"
    "\<forall>k. Frames (store c) k \<noteq> Frames (store b) k \<longrightarrow> (\<exists>x \<in> set n2. action_frame x = Some k)"
    and s2: "NextBatches (store c) = NextBatches (store b)" "Filters (store c) = Filters (store b)"
    and h2: "\<forall>k. Frames (store b) k \<noteq> None \<longrightarrow> Frames (store c) k \<noteq> None"
    unfolding effects_def by blast
  have t: "trace c = trace a @ (n1 @ n2)" using n1(1) n2(1) by simp
  have q: "\<forall>x \<in> set (n1 @ n2). Q x" using n1(2) n2(2) by auto
  have f: "\<forall>k. Frames (store c) k \<noteq> Frames (store a) k
                   \<longrightarrow> (\<exists>x \<in> set (n1 @ n2). action_frame x = Some k)"
  proof (intro allI impI)
    fix k assume "Frames (store c) k \<noteq> Frames (store a) k"
    then have "Frames (store c) k \<noteq> Frames (store b) k \<or> Frames (store b) k \<noteq> Frames (store a) k"
      by auto
    then show "\<exists>x \<in> set (n1 @ n2). action_frame x = Some k"
      using n1(3) n2(3) by auto
  qed
  have h: "\<forall>k. Frames (store a) k \<noteq> None \<longrightarrow> Frames (store c) k \<noteq> None"
    using h1 h2 by blast
  have "\<exists>new. trace c = trace a @ new \<and> (\<forall>x \<in> set new. Q x)
          \<and> (\<forall>k. Frames (store c) k \<noteq> Frames (store a) k \<longrightarrow> (\<exists>x \<in> set new. action_frame x = Some k))"
    using t q f by blast
  with s1 s2 h show ?thesis unfolding effects_def by simp
qed

lemma seq_effects:
  assumes "seq f g w = (w', r)"
      and "\<And>v v' q. f v = (v', q) \<Longrightarrow> effects Q v v'"
      and "\<And>v v' q. g v = (v', q) \<Longrightarrow> effects Q v v'"
  shows "effects Q w w'"
  using assms(1)
proof (rule seq_rel)
  show "effects Q v v'" if "f v = (v', q)" for v v' q using that by (rule assms(2))
  show "effects Q v v'" if "g v = (v', q)" for v v' q using that by (rule assms(3))
qed (rule effects_trans)

lemma forEach_effects:
  assumes "forEach body xs w = (w', r)"
      and "\<And>x v v' q. x \<in> set xs \<Longrightarrow> body x v = (v', q) \<Longrightarrow> effects Q v v'"
  shows "effects Q w w'"
  using assms(1)
proof (rule forEach_rel)
  show "effects Q v v'" if "x \<in> set xs" "body x v = (v', q)" for x v v' q
    using that by (rule assms(2))
qed (rule effects_refl, rule effects_trans)

lemma range_events_effects:
  assumes "range_events go body xs w = (w', r)"
      and "\<And>x p v v' q. x \<in> set xs \<Longrightarrow> events v p = x \<Longrightarrow> body p v = (v', q) \<Longrightarrow> effects Q v v'"
  shows "effects Q w w'"
  using assms(1)
proof (rule range_events_rel)
  show "effects Q v v'" if "x \<in> set xs" "events v p = x" "body p v = (v', q)" for x p v v' q
    using that by (rule assms(2))
qed (rule effects_mem, rule effects_refl, rule effects_trans)

lemma emit_effects:
  assumes "Q a"
  shows "effects Q w (emit a w)"
  using assms by (simp add: effects_def emit_def)

lemma set_FrameID_effects: "effects Q w (set_FrameID k p w)"
  by (simp add: effects_def set_FrameID_def assign_var_def)

lemma getOrCreateFrame_effects:
  assumes "Q (ALoadFrame k)" and "Q (ASaveFrame k)"
  shows "effects Q w (getOrCreateFrame k w)"
proof (cases "Frames (store w) k")
  case None
  have "trace (getOrCreateFrame k w) = trace w @ [ALoadFrame k, ASaveFrame k]"
    and "NextBatches (store (getOrCreateFrame k w)) = NextBatches (store w)"
    and "Filters (store (getOrCreateFrame k w)) = Filters (store w)"
    and "\<And>j. Frames (store (getOrCreateFrame k w)) j \<noteq> Frames (store w) j \<Longrightarrow> j = k"
    and "\<And>j. Frames (store w) j \<noteq> None \<Longrightarrow> Frames (store (getOrCreateFrame k w)) j \<noteq> None"
    using None
    by (auto simp: getOrCreateFrame_def emit_def LoadFrame_def SaveFrame_def NewFrame_def Let_def
        split: if_splits)
  then show ?thesis
    unfolding effects_def using assms
    by (intro conjI exI [of _ "[ALoadFrame k, ASaveFrame k]"]) auto
next
  case (Some frame)
  then have "getOrCreateFrame k w = emit (ALoadFrame k) w"
    by (simp add: getOrCreateFrame_def emit_def LoadFrame_def Let_def)
  with assms(1) show ?thesis by (simp add: emit_effects)
qed

lemma frame_UpdateState_effects:
  assumes "frame_UpdateState k p w = (w', r)" and "Q (AUpdateState k p (events w p))"
  shows "effects Q w w'"
proof (cases "Frames (store w) k")
  case None
  with assms(1) have "w' = emit (AUpdateState k p (events w p)) w"
    by (auto simp: frame_UpdateState_def emit_def Let_def)
  with assms(2) show ?thesis by (simp add: emit_effects)
next
  case (Some frame)
  let ?f' = "fst (UpdateState (events w) frame p)"
  from Some assms(1)
  have w': "w' = w\<lparr>trace := trace w @ [AUpdateState k p (events w p)],
                   store := (store w)\<lparr>Frames := (Frames (store w))(k \<mapsto> ?f')\<rparr>\<rparr>"
    by (auto simp: frame_UpdateState_def emit_def Let_def split: prod.splits)
  show ?thesis
    unfolding effects_def using assms(2)
    by (intro conjI exI [of _ "[AUpdateState k p (events w p)]"]) (auto simp: w')
qed

lemma call_listeners_effects:
  assumes "call_listeners ty i fns p w = (w', r)" and "\<And>j. Q (AListener ty j p (events w p))"
  shows "effects Q w w' \<and> events w' = events w \<and> fresh w' = fresh w"
  using assms
proof (induction fns arbitrary: w i)
  case Nil
  then show ?case by (simp add: effects_refl)
next
  case (Cons fn fns)
  obtain u' q where f: "fn (events w p) (ustate w) = (u', q)" by (cases "fn (events w p) (ustate w)")
  let ?w1 = "emit (AListener ty i p (events w p)) (w\<lparr>ustate := u'\<rparr>)"
  have one: "effects Q w ?w1"
    using Cons.prems(2) [of i] by (simp add: effects_def emit_def)
  have m: "events ?w1 = events w" "fresh ?w1 = fresh w" by (simp_all add: emit_def)
  show ?case
  proof (cases q)
    case None
    with f Cons.prems(1) have "call_listeners ty (Suc i) fns p ?w1 = (w', r)" by simp
    from Cons.IH [OF this] Cons.prems(2) m
    have "effects Q ?w1 w'" "events w' = events w" "fresh w' = fresh w" by simp_all
    with one show ?thesis by (blast intro: effects_trans)
  next
    case (Some pn)
    with f Cons.prems(1) have "w' = ?w1" by simp
    with one m show ?thesis by simp
  qed
qed

lemma notifyListeners_effects:
  assumes "notifyListeners s p w = (w', r)"
      and "\<And>j. Q (AListener (Type (events w p)) j p (events w p))"
  shows "effects Q w w'"
  using assms
  by (auto simp: notifyListeners_def effects_refl split: option.splits
      dest: call_listeners_effects)

lemma state_event_effects:
  assumes "state_event s k p w = (w', r)"
      and "Q (AUpdateState k p ((events w p)\<lparr>FrameID := k\<rparr>))"
      and "\<And>j. Q (AListener (Type (events w p)) j p ((events w p)\<lparr>FrameID := k\<rparr>))"
  shows "effects Q w w'"
proof -
  let ?w1 = "set_FrameID k p w"
  have e1: "events ?w1 p = (events w p)\<lparr>FrameID := k\<rparr>"
    by (simp add: set_FrameID_def assign_var_def)
  from assms(1) have "seq (frame_UpdateState k p) (notifyListeners s p) ?w1 = (w', r)"
    by (simp add: state_event_def seq_def)
  then have "effects Q ?w1 w'"
  proof (cases rule: seq_elim)
    case first
    then show ?thesis using assms(2) e1 by (auto intro: frame_UpdateState_effects)
  next
    case (both w2)
    have u: "effects Q ?w1 w2"
      using both(1) assms(2) e1 by (auto intro: frame_UpdateState_effects)
    have "events w2 = events ?w1"
      using both(1) by (auto simp: frame_UpdateState_def emit_def Let_def split: option.splits prod.splits)
    with both(2) assms(3) e1 have "effects Q w2 w'"
      by (intro notifyListeners_effects [of s p w2 w' r]) simp_all
    with u show ?thesis by (rule effects_trans)
  qed
  with set_FrameID_effects [of Q w k p] show ?thesis by (rule effects_trans)
qed

lemma plain_event_effects:
  assumes "plain_event s k p w = (w', r)"
      and "\<And>j. Q (AListener (Type (events w p)) j p ((events w p)\<lparr>FrameID := k\<rparr>))"
  shows "effects Q w w'"
proof -
  let ?w1 = "set_FrameID k p w"
  have e1: "events ?w1 p = (events w p)\<lparr>FrameID := k\<rparr>"
    by (simp add: set_FrameID_def assign_var_def)
  from assms(1) have "notifyListeners s p ?w1 = (w', r)"
    by (simp add: plain_event_def seq_def)
  with assms(2) e1 have "effects Q ?w1 w'"
    by (intro notifyListeners_effects [of s p ?w1 w' r]) simp_all
  with set_FrameID_effects [of Q w k p] show ?thesis by (rule effects_trans)
qed

lemma left_event_effects:
  assumes "left_event s k p w = (w', r)"
      and "StateKey (events w p) \<noteq> None \<Longrightarrow> Q (AUpdateState k p ((events w p)\<lparr>FrameID := k\<rparr>))"
      and "\<And>j. StateKey (events w p) \<noteq> None
             \<Longrightarrow> Q (AListener (Type (events w p)) j p ((events w p)\<lparr>FrameID := k\<rparr>))"
  shows "effects Q w w'"
proof (cases "StateKey (events w p)")
  case None
  with assms(1) show ?thesis by (simp add: left_event_def effects_refl)
next
  case (Some key)
  with assms(1) have "state_event s k p w = (w', r)" by (simp add: left_event_def)
  then show ?thesis using assms(2,3) Some by (auto intro: state_event_effects)
qed


subsection \<open>Effects of frames and passes\<close>

lemma state_events_effects:
  assumes "range_events go (state_event s k) es w = (w', r)"
      and "\<And>a. action_frame a = Some k \<Longrightarrow> Q a"
  shows "effects Q w w'"
  using assms(1)
proof (rule range_events_effects)
  show "effects Q a b" if "state_event s k p a = (b, c)" for p a b c
    using that by (rule state_event_effects) (simp_all add: assms(2))
qed

lemma plain_events_effects:
  assumes "range_events go (plain_event s k) es w = (w', r)"
      and "\<And>a. action_frame a = Some k \<Longrightarrow> Q a"
  shows "effects Q w w'"
  using assms(1)
proof (rule range_events_effects)
  show "effects Q a b" if "plain_event s k p a = (b, c)" for p a b c
    using that by (rule plain_event_effects) (simp add: assms(2))
qed

lemma getOrCreateFrame_step:
  assumes "(getOrCreateFrame k v, None) = (v', q)" and "Q (ALoadFrame k)" and "Q (ASaveFrame k)"
  shows "effects Q v v'"
  using assms getOrCreateFrame_effects [of Q k v] by auto

lemma join_frame_effects:
  assumes "join_frame go s (k, fd) w = (w', r)"
      and "\<And>a. action_frame a = Some k \<Longrightarrow> Q a"
  shows "effects Q w w'"
proof -
  have st: "effects Q v v'" if "range_events go (state_event s k) es v = (v', q)" for es v v' q
    using that assms(2) by (rule state_events_effects)
  have pl: "effects Q v v'" if "range_events go (plain_event s k) es v = (v', q)" for es v v' q
    using that assms(2) by (rule plain_events_effects)
  have g: "effects Q v v'" if "(getOrCreateFrame k v, None) = (v', q)" for v v' and q :: "panic option"
    using that by (rule getOrCreateFrame_step) (simp_all add: assms(2))
  from assms(1) show ?thesis
    unfolding join_frame_def prod.case
    by (elim seq_effects) (erule g st pl)+
qed

lemma invite_frame_effects:
  assumes "invite_frame go s (k, fd) w = (w', r)"
      and "\<And>a. action_frame a = Some k \<Longrightarrow> Q a"
  shows "effects Q w w'"
proof -
  have st: "effects Q v v'" if "range_events go (state_event s k) es v = (v', q)" for es v v' q
    using that assms(2) by (rule state_events_effects)
  have g: "effects Q v v'" if "(getOrCreateFrame k v, None) = (v', q)" for v v' and q :: "panic option"
    using that by (rule getOrCreateFrame_step) (simp_all add: assms(2))
  from assms(1) show ?thesis
    unfolding invite_frame_def prod.case
    by (elim seq_effects) (erule g st)+
qed

lemma leave_frame_effects:
  assumes "leave_frame go s (k, fd) w = (w', r)"
      and "Q (ALoadFrame k)" and "Q (ASaveFrame k)"
      and "\<And>e p. e \<in> set (LeaveTimeline fd) \<Longrightarrow> StateKey e \<noteq> None
              \<Longrightarrow> Q (AUpdateState k p (e\<lparr>FrameID := k\<rparr>))"
      and "\<And>e j p. e \<in> set (LeaveTimeline fd) \<Longrightarrow> StateKey e \<noteq> None
              \<Longrightarrow> Q (AListener (Type e) j p (e\<lparr>FrameID := k\<rparr>))"
  shows "effects Q w w'"
proof -
  have st: "effects Q v v'"
    if "range_events go (left_event s k) (LeaveTimeline fd) v = (v', q)" for v v' q
    using that
  proof (rule range_events_effects)
    show "effects Q a b"
      if "e \<in> set (LeaveTimeline fd)" "events a p = e" "left_event s k p a = (b, c)" for e p a b c
      using that(3) by (rule left_event_effects) (simp_all add: assms(4,5) that(1,2))
  qed
  have g: "effects Q v v'" if "(getOrCreateFrame k v, None) = (v', q)" for v v' and q :: "panic option"
    using that by (rule getOrCreateFrame_step) (simp_all add: assms(2,3))
  from assms(1) show ?thesis
    unfolding leave_frame_def prod.case
    by (elim seq_effects) (erule g st)+
qed

lemma join_pass_effects:
  assumes "join_pass go s res w = (w', r)"
      and "\<And>a k. k \<in> fst ` set (Join res) \<Longrightarrow> action_frame a = Some k \<Longrightarrow> Q a"
  shows "effects Q w w'"
  using assms(1) unfolding join_pass_def
proof (rule forEach_effects)
  show "effects Q v v'" if "x \<in> set (Join res)" "join_frame go s x v = (v', q)" for x v v' q
  proof -
    obtain k fd where x: "x = (k, fd)" by (cases x)
    with that(1) have "k \<in> fst ` set (Join res)" by force
    with that(2) x show ?thesis by (auto intro: join_frame_effects assms(2))
  qed
qed

lemma invite_pass_effects:
  assumes "invite_pass go s res w = (w', r)"
      and "\<And>a k. k \<in> fst ` set (Invite res) \<Longrightarrow> action_frame a = Some k \<Longrightarrow> Q a"
  shows "effects Q w w'"
  using assms(1) unfolding invite_pass_def
proof (rule forEach_effects)
  show "effects Q v v'" if "x \<in> set (Invite res)" "invite_frame go s x v = (v', q)" for x v v' q
  proof -
    obtain k fd where x: "x = (k, fd)" by (cases x)
    with that(1) have "k \<in> fst ` set (Invite res)" by force
    with that(2) x show ?thesis by (auto intro: invite_frame_effects assms(2))
  qed
qed

lemma leave_pass_effects:
  assumes "leave_pass go s res w = (w', r)"
      and "\<And>a k. k \<in> fst ` set (Leave res) \<Longrightarrow> action_frame a = Some k \<Longrightarrow> Q a"
  shows "effects Q w w'"
  using assms(1) unfolding leave_pass_def
proof (rule forEach_effects)
  show "effects Q v v'" if "x \<in> set (Leave res)" "leave_frame go s x v = (v', q)" for x v v' q
  proof -
    obtain k fd where x: "x = (k, fd)" by (cases x)
    with that(1) have k: "k \<in> fst ` set (Leave res)" by force
    from that(2) x have "leave_frame go s (k, fd) v = (v', q)" by simp
    then show ?thesis
      by (rule leave_frame_effects) (simp_all add: assms(2) [OF k])
  qed
qed

lemma main_pass_effects:
  assumes "main_pass go s res w = (w', r)"
      and "\<And>a k. k \<in> fst ` set (Join res) \<union> fst ` set (Invite res) \<union> fst ` set (Leave res)
              \<Longrightarrow> action_frame a = Some k \<Longrightarrow> Q a"
  shows "effects Q w w'"
  using assms(1) unfolding main_pass_def
proof (elim seq_effects)
  show "effects Q v v'" if "join_pass go s res v = (v', q)" for v v' q
    using that by (rule join_pass_effects) (rule assms(2), simp_all)
  show "effects Q v v'" if "invite_pass go s res v = (v', q)" for v v' q
    using that by (rule invite_pass_effects) (rule assms(2), simp_all)
  show "effects Q v v'" if "leave_pass go s res v = (v', q)" for v v' q
    using that by (rule leave_pass_effects) (rule assms(2), simp_all)
qed


subsection \<open>Panics of the main pass\<close>

lemma frame_UpdateState_nil_key:
  assumes "StateKey (events w p) = None"
  shows "snd (frame_UpdateState k p w) = Some nil_dereference"
  using assms
  by (simp add: frame_UpdateState_def UpdateState_def emit_def Let_def split: option.splits)

lemma frame_UpdateState_panic:
  assumes "frame_UpdateState k p w = (w', Some pn)"
  shows "pn = nil_dereference"
  using assms
  by (auto simp: frame_UpdateState_def UpdateState_def Let_def split: option.splits)

lemma state_event_nil_key:
  assumes "StateKey (events w p) = None"
  shows "snd (state_event s k p w) = Some nil_dereference"
proof -
  have "StateKey (events (set_FrameID k p w) p) = None"
    using assms by (simp add: set_FrameID_def assign_var_def)
  from frame_UpdateState_nil_key [OF this, of k] show ?thesis
    by (auto simp: state_event_def seq_def split: prod.splits option.splits)
qed

lemma state_events_None:
  assumes "range_events go (state_event s k) es w = (w', None)" and "e \<in> set es"
  shows "StateKey e \<noteq> None"
proof
  assume nil: "StateKey e = None"
  from range_events_visits [OF assms, of "\<lambda>_ _. True"]
  obtain p w1 w2 where "events w1 p = e" "state_event s k p w1 = (w2, None)" by auto
  with state_event_nil_key [of w1 p s k] nil show False by simp
qed

lemma join_frame_None:
  assumes "join_frame go s (k, fd) w = (w', None)" and "e \<in> set (JoinState fd)"
  shows "StateKey e \<noteq> None"
proof -
  from assms(1) obtain v v' where "range_events go (state_event s k) (JoinState fd) v = (v', None)"
    unfolding join_frame_def prod.case
    by (elim seq_elim) auto
  then show ?thesis using assms(2) by (rule state_events_None)
qed

lemma invite_frame_None:
  assumes "invite_frame go s (k, fd) w = (w', None)" and "e \<in> set (InviteState fd)"
  shows "StateKey e \<noteq> None"
proof -
  from assms(1) obtain v v' where "range_events go (state_event s k) (InviteState fd) v = (v', None)"
    unfolding invite_frame_def prod.case
    by (elim seq_elim) auto
  then show ?thesis using assms(2) by (rule state_events_None)
qed

lemma main_pass_None_join:
  assumes "main_pass go s res w = (w', None)"
      and "(k, fd) \<in> set (Join res)" and "e \<in> set (JoinState fd)"
  shows "StateKey e \<noteq> None"
proof -
  from assms(1) obtain v1 where j: "join_pass go s res w = (v1, None)"
    unfolding main_pass_def by (elim seq_elim) auto
  from forEach_visits [OF j [unfolded join_pass_def] assms(2), of "\<lambda>_ _. True"]
  obtain a b where "join_frame go s (k, fd) a = (b, None)" by auto
  from join_frame_None [OF this assms(3)] show ?thesis .
qed

lemma main_pass_None_invite:
  assumes "main_pass go s res w = (w', None)"
      and "(k, fd) \<in> set (Invite res)" and "e \<in> set (InviteState fd)"
  shows "StateKey e \<noteq> None"
proof -
  from assms(1) obtain v1 v2 where i: "invite_pass go s res v1 = (v2, None)"
    unfolding main_pass_def by (elim seq_elim) auto
  from forEach_visits [OF i [unfolded invite_pass_def] assms(2), of "\<lambda>_ _. True"]
  obtain a b where "invite_frame go s (k, fd) a = (b, None)" by auto
  from invite_frame_None [OF this assms(3)] show ?thesis .
qed

lemma call_listeners_quiet:
  assumes "\<And>fn e u. fn \<in> set fns \<Longrightarrow> snd (fn e u) = None"
  shows "snd (call_listeners ty i fns p w) = None"
  using assms
proof (induction fns arbitrary: i w)
  case Nil
  then show ?case by simp
next
  case (Cons fn fns)
  obtain u' q where f: "fn (events w p) (ustate w) = (u', q)" by (cases "fn (events w p) (ustate w)")
  with Cons.prems [of fn "events w p" "ustate w"] have "q = None" by simp
  with f Cons.IH Cons.prems show ?case by (simp add: Let_def)
qed

lemma notifyListeners_quiet:
  assumes "quiet s"
  shows "snd (notifyListeners s p w) = None"
proof (cases "listeners s (Type (events w p))")
  case None
  then show ?thesis by (simp add: notifyListeners_def)
next
  case (Some fns)
  have "snd (call_listeners (Type (events w p)) 0 fns p w) = None"
    by (rule call_listeners_quiet) (use assms Some in \<open>auto simp: quiet_def\<close>)
  with Some show ?thesis by (simp add: notifyListeners_def)
qed

lemma state_event_panic:
  assumes "state_event s k p w = (w', Some pn)" and "quiet s"
  shows "pn = nil_dereference"
proof -
  from assms(1)
  have "seq (frame_UpdateState k p) (notifyListeners s p) (set_FrameID k p w) = (w', Some pn)"
    by (simp add: state_event_def seq_def)
  then show ?thesis
  proof (cases rule: seq_elim)
    case first
    from first(1) show ?thesis by (rule frame_UpdateState_panic)
  next
    case (both w1)
    with notifyListeners_quiet [OF assms(2), of p w1] show ?thesis by simp
  qed
qed

lemma plain_event_quiet:
  assumes "quiet s"
  shows "snd (plain_event s k p w) = None"
  using notifyListeners_quiet [OF assms] by (simp add: plain_event_def seq_def)

lemma left_event_panic:
  assumes "left_event s k p w = (w', Some pn)" and "quiet s"
  shows "pn = nil_dereference"
  using assms by (auto simp: left_event_def split: if_splits dest: state_event_panic)

lemma state_events_panic:
  assumes "range_events go (state_event s k) es w = (w', Some pn)" and "quiet s"
  shows "pn = nil_dereference"
  using assms(1) by (rule range_events_panic) (rule state_event_panic [OF _ assms(2)])

lemma plain_events_quiet:
  assumes "range_events go (plain_event s k) es w = (w', Some pn)" and "quiet s"
  shows False
  using assms(1)
proof (rule range_events_panic)
  show False if "plain_event s k p v = (v', Some pn)" for p v v'
    using that plain_event_quiet [OF assms(2), of k p v] by simp
qed

lemma left_events_panic:
  assumes "range_events go (left_event s k) es w = (w', Some pn)" and "quiet s"
  shows "pn = nil_dereference"
  using assms(1) by (rule range_events_panic) (rule left_event_panic [OF _ assms(2)])

lemma join_frame_panic:
  assumes "join_frame go s x w = (w', Some pn)" and "quiet s"
  shows "pn = nil_dereference"
proof -
  obtain k fd where x: "x = (k, fd)" by (cases x)
  from assms(1) show ?thesis
    unfolding join_frame_def x prod.case
    by (elim seq_elim)
       (auto dest: state_events_panic [OF _ assms(2)] plain_events_quiet [OF _ assms(2)])
qed

lemma invite_frame_panic:
  assumes "invite_frame go s x w = (w', Some pn)" and "quiet s"
  shows "pn = nil_dereference"
proof -
  obtain k fd where x: "x = (k, fd)" by (cases x)
  from assms(1) show ?thesis
    unfolding invite_frame_def x prod.case
    by (elim seq_elim) (auto dest: state_events_panic [OF _ assms(2)])
qed

lemma leave_frame_panic:
  assumes "leave_frame go s x w = (w', Some pn)" and "quiet s"
  shows "pn = nil_dereference"
proof -
  obtain k fd where x: "x = (k, fd)" by (cases x)
  from assms(1) show ?thesis
    unfolding leave_frame_def x prod.case
    by (elim seq_elim) (auto dest: left_events_panic [OF _ assms(2)])
qed

lemma main_pass_panic:
  assumes "main_pass go s res w = (w', Some pn)" and "quiet s"
  shows "pn = nil_dereference"
  using assms(1) unfolding main_pass_def join_pass_def invite_pass_def leave_pass_def
proof (elim seq_elim)
  show "pn = nil_dereference" if "forEach (join_frame go s) (Join res) v = (v', Some pn)" for v v'
    using that by (rule forEach_panic) (rule join_frame_panic [OF _ assms(2)])
  show "pn = nil_dereference" if "forEach (invite_frame go s) (Invite res) v = (v', Some pn)" for v v'
    using that by (rule forEach_panic) (rule invite_frame_panic [OF _ assms(2)])
  show "pn = nil_dereference" if "forEach (leave_frame go s) (Leave res) v = (v', Some pn)" for v v'
    using that by (rule forEach_panic) (rule leave_frame_panic [OF _ assms(2)])
qed

subsection \<open>The join-race scan\<close>

lemma without_empty: "without {} xs = xs"
  by (simp add: without_def)

lemma without_delete: "without S (AList.delete k xs) = without (insert k S) xs"
  by (auto simp: without_def AList.delete_eq intro: filter_cong)

lemma without_cong:
  assumes "\<And>k. k \<in> fst ` set xs \<Longrightarrow> k \<in> S \<longleftrightarrow> k \<in> T"
  shows "without S xs = without T xs"
  unfolding without_def using assms by (intro filter_cong) auto

lemma keys_without: "fst ` set (without S xs) = fst ` set xs - S"
  by (auto simp: without_def)

lemma keys_delete: "fst ` set (AList.delete k xs) = fst ` set xs - {k}"
  by (auto simp: AList.delete_eq)

lemma scan_timeline_result:
  "scan_timeline userID frameID es resp =
     (if (\<exists>e \<in> set es. is_join_event userID e) \<and> frameID \<in> fst ` set (Join resp)
      then resp\<lparr>Join := AList.delete frameID (Join resp),
                Invite := AList.delete frameID (Invite resp)\<rparr>
      else resp)"
proof (induction es)
  case Nil
  then show ?case by simp
next
  case (Cons e es)
  show ?case
  proof (cases "is_join_event userID e")
    case True
    then show ?thesis
      using Cons.IH by (auto simp: is_join_event_def map_of_eq_None_iff)
  next
    case False
    then have "scan_timeline userID frameID (e # es) resp = scan_timeline userID frameID es resp"
      by (auto simp: is_join_event_def split: option.splits jvalue.splits)
    with False Cons.IH show ?thesis by simp
  qed
qed

lemma suppressed_Nil: "suppressed userID [] = {}"
  by (simp add: suppressed_def)

lemma suppressed_Cons:
  "suppressed userID ((k, fd) # items) =
     (if \<exists>e \<in> set (JoinTimeline fd). is_join_event userID e then insert k (suppressed userID items)
      else suppressed userID items)"
  by (auto simp: suppressed_def)

lemma scan_frames_result:
  "scan_frames userID items resp =
     resp\<lparr>Join := without (suppressed userID items) (Join resp),
          Invite := without (suppressed userID items \<inter> fst ` set (Join resp)) (Invite resp)\<rparr>"
proof (induction items arbitrary: resp)
  case Nil
  then show ?case by (simp add: suppressed_Nil without_empty)
next
  case (Cons x items)
  obtain k fd where x: "x = (k, fd)" by (cases x)
  let ?S = "suppressed userID items"
  let ?hit = "(\<exists>e \<in> set (JoinTimeline fd). is_join_event userID e) \<and> k \<in> fst ` set (Join resp)"
  show ?case
  proof (cases ?hit)
    case True
    let ?r1 = "resp\<lparr>Join := AList.delete k (Join resp), Invite := AList.delete k (Invite resp)\<rparr>"
    have step: "scan_frames userID (x # items) resp = scan_frames userID items ?r1"
      using True by (simp add: x scan_timeline_result)
    have sup: "suppressed userID (x # items) = insert k ?S"
      using True by (simp add: x suppressed_Cons)
    have j: "without ?S (AList.delete k (Join resp)) = without (insert k ?S) (Join resp)"
      by (rule without_delete)
    have "without (?S \<inter> fst ` set (AList.delete k (Join resp))) (AList.delete k (Invite resp))
            = without (insert k (?S \<inter> fst ` set (AList.delete k (Join resp)))) (Invite resp)"
      by (rule without_delete)
    also have "\<dots> = without (insert k ?S \<inter> fst ` set (Join resp)) (Invite resp)"
      using True by (intro without_cong) (auto simp: keys_delete)
    finally have i: "without (?S \<inter> fst ` set (AList.delete k (Join resp))) (AList.delete k (Invite resp))
            = without (insert k ?S \<inter> fst ` set (Join resp)) (Invite resp)" .
    have "scan_frames userID items ?r1
            = resp\<lparr>Join := without ?S (AList.delete k (Join resp)),
                   Invite := without (?S \<inter> fst ` set (AList.delete k (Join resp)))
                               (AList.delete k (Invite resp))\<rparr>"
      by (simp add: Cons.IH)
    then show ?thesis by (simp only: step sup j i)
  next
    case False
    have step: "scan_frames userID (x # items) resp = scan_frames userID items resp"
      using False by (auto simp: x scan_timeline_result)
    have j: "without (suppressed userID (x # items)) (Join resp) = without ?S (Join resp)"
      using False by (intro without_cong) (auto simp: x suppressed_Cons)
    have i: "without (suppressed userID (x # items) \<inter> fst ` set (Join resp)) (Invite resp)
           = without (?S \<inter> fst ` set (Join resp)) (Invite resp)"
      using False by (intro without_cong) (auto simp: x suppressed_Cons)
    show ?thesis by (simp only: step Cons.IH j i)
  qed
qed

lemma suppressed_subset: "suppressed userID items \<subseteq> fst ` set items"
  by (force simp: suppressed_def)

lemma shouldProcessResponse_result:
  assumes "since \<noteq> []"
  shows "shouldProcessResponse s res since =
     (True, res\<lparr>Join := without (suppressed (UserID s) (Join res)) (Join res),
               Invite := without (suppressed (UserID s) (Join res)) (Invite res)\<rparr>)"
proof -
  have "suppressed (UserID s) (Join res) \<inter> fst ` set (Join res) = suppressed (UserID s) (Join res)"
    using suppressed_subset [of "UserID s" "Join res"] by blast
  with assms show ?thesis by (simp add: shouldProcessResponse_def scan_frames_result)
qed

lemma shouldProcessResponse_delete:
  assumes "since \<noteq> []" and "k \<in> suppressed (UserID s) (Join res)"
  shows "shouldProcessResponse s
           (res\<lparr>Join := AList.delete k (Join res), Invite := AList.delete k (Invite res)\<rparr>) since
         = shouldProcessResponse s res since"
proof -
  let ?S = "suppressed (UserID s) (Join res)"
  have sup: "suppressed (UserID s) (AList.delete k (Join res)) = ?S - {k}"
    by (auto simp: suppressed_def AList.delete_eq)
  have "without (?S - {k}) (AList.delete k (Join res)) = without (insert k (?S - {k})) (Join res)"
    by (rule without_delete)
  moreover have "insert k (?S - {k}) = ?S" using assms(2) by auto
  ultimately have j: "without (?S - {k}) (AList.delete k (Join res)) = without ?S (Join res)"
    by simp
  have "without (?S - {k}) (AList.delete k (Invite res)) = without (insert k (?S - {k})) (Invite res)"
    by (rule without_delete)
  with \<open>insert k (?S - {k}) = ?S\<close>
  have i: "without (?S - {k}) (AList.delete k (Invite res)) = without ?S (Invite res)"
    by simp
  show ?thesis
    by (simp add: shouldProcessResponse_result [OF assms(1)] sup j i)
qed


subsection \<open>The state tables and the subscriber's state follow the log\<close>



lemma slot_mem [simp]:
  "slot (w\<lparr>events := m\<rparr>) = slot w" "slot (w\<lparr>fresh := f\<rparr>) = slot w"
  "slot (w\<lparr>trace := t\<rparr>) = slot w" "slot (w\<lparr>ustate := u\<rparr>) = slot w"
  by (simp_all add: slot_def fun_eq_iff)















subsection \<open>The event variables when every iteration has its own\<close>










subsection \<open>What a left event leaves in the log\<close>






lemma last_update_Some:
  "last_update f ty key xs = Some q
     \<Longrightarrow> \<exists>e. AUpdateState f q e \<in> set xs \<and> Type e = ty \<and> StateKey e = Some key"
  by (induction xs) (auto split: option.splits action.splits if_splits)



section \<open>Membership lookup\<close>

text \<open>
  C8. For every frame and user ID: when the state table has no \<^verbatim>\<open>m.frame.member\<close> entry
  for the user, or the event the entry points to has no \<^verbatim>\<open>membership\<close> content, or that
  content is not a string, \<^verbatim>\<open>GetMembershipState\<close> returns the string \<^verbatim>\<open>leave\<close>. The result
  type is a plain string, so there is neither an absence nor an error.
\<close>

theorem GetMembershipState_default:
  assumes "GetStateEvent frame ''m.frame.member'' userID = None
           \<or> (\<exists>event. GetStateEvent frame ''m.frame.member'' userID = Some event
                 \<and> (Content (mem event) ''membership'' = None
                    \<or> (\<exists>v. Content (mem event) ''membership'' = Some v \<and> (\<forall>s. v \<noteq> JString s))))"
  shows "GetMembershipState mem frame userID = ''leave''"
  using assms
  by (auto simp: GetMembershipState_def split: option.splits jvalue.splits)

theorem GetMembershipState_default_witness:
  "GetMembershipState (\<lambda>p. example_message) (NewFrame ''!f:x'') ''@bot:x'' = ''leave''
   \<and> GetMembershipState
        (\<lambda>p. \<lparr>StateKey = Some ''@bot:x'', Sender = ''@a:x'', Type = ''m.frame.member'',
            Timestamp = 0, EventID = ''$1'', FrameID = ''!f:x'', Redacts = [],
            Content = [''membership'' \<mapsto> JNumber 1]\<rparr>)
        (fst (UpdateState
           (\<lambda>p. \<lparr>StateKey = Some ''@bot:x'', Sender = ''@a:x'', Type = ''m.frame.member'',
            Timestamp = 0, EventID = ''$1'', FrameID = ''!f:x'', Redacts = [],
            Content = [''membership'' \<mapsto> JNumber 1]\<rparr>) (NewFrame ''!f:x'') 0)) ''@bot:x'' = ''leave''"
proof -
  have a: "GetStateEvent (NewFrame ''!f:x'') ''m.frame.member'' ''@bot:x'' = None"
    by (simp add: GetStateEvent_def NewFrame_def)
  let ?e = "\<lparr>StateKey = Some ''@bot:x'', Sender = ''@a:x'', Type = ''m.frame.member'',
            Timestamp = 0, EventID = ''$1'', FrameID = ''!f:x'', Redacts = [],
            Content = [''membership'' \<mapsto> JNumber 1]\<rparr>"
  let ?mem = "\<lambda>p::ref. ?e"
  have b: "GetStateEvent (fst (UpdateState ?mem (NewFrame ''!f:x'') 0)) ''m.frame.member'' ''@bot:x''
             = Some 0"
    by (simp add: GetStateEvent_def NewFrame_def UpdateState_def)
  have c: "Content (?mem 0) ''membership'' = Some (JNumber 1)" by simp
  show ?thesis
    using GetMembershipState_default [where frame = "NewFrame ''!f:x''" and userID = "''@bot:x''"
            and mem = "\<lambda>p. example_message"]
          GetMembershipState_default [where frame = "fst (UpdateState ?mem (NewFrame ''!f:x'') 0)"
            and userID = "''@bot:x''" and mem = ?mem]
          a b c
    by blast
qed

section \<open>Reconciliation\<close>

text \<open>
  C3. With the empty since position \<^verbatim>\<open>ProcessResponse\<close> returns nil and leaves the world
  as it was, whatever the response holds: the store (and with it every state table) is
  unchanged, the log has no new entry (no frame load or save, no state update, no
  listener call), and the subscriber's state and the event variables are untouched.
\<close>

theorem ProcessResponse_initial_sync:
  "ProcessResponse go s stack res [] w = (w, None)"
  by (simp add: ProcessResponse_def shouldProcessResponse_def)



text \<open>
  C2, amended. For a batch processed with a non-empty since position and a frame of the
  joined bucket whose timeline holds an \<^verbatim>\<open>m.frame.member\<close> event with the syncing user as
  state-key and the membership \<^verbatim>\<open>join\<close> (the case of the claim, where the most recent
  membership event of the user is such an event, is one of these): the should-process
  check, which runs before the main pass, removes the frame from the joined and the
  invited bucket; the batch is processed exactly as the batch without these two entries;
  and unless the left bucket also holds the frame, no log entry is about the frame (no
  load or save, no state update, no listener call with one of its events) and the store's
  frame is unchanged.
\<close>

theorem join_race_suppression:
  assumes "since \<noteq> []"
      and "(frameID, frameData) \<in> set (Join res)"
      and "e \<in> set (JoinTimeline frameData)"
      and "Type e = ''m.frame.member''"
      and "StateKey e = Some (UserID s)"
      and "Content e ''membership'' = Some (JString ''join'')"
  shows "frameID \<notin> fst ` set (Join (snd (shouldProcessResponse s res since)))
       \<and> frameID \<notin> fst ` set (Invite (snd (shouldProcessResponse s res since)))
       \<and> ProcessResponse go s stack res since w
           = ProcessResponse go s stack
               (res\<lparr>Join := AList.delete frameID (Join res),
                    Invite := AList.delete frameID (Invite res)\<rparr>) since w
       \<and> (frameID \<notin> fst ` set (Leave res) \<longrightarrow>
            Frames (store (fst (ProcessResponse go s stack res since w))) frameID = Frames (store w) frameID
            \<and> (\<exists>new. trace (fst (ProcessResponse go s stack res since w)) = trace w @ new
                  \<and> (\<forall>a \<in> set new. action_frame a \<noteq> Some frameID)))"
proof -
  let ?S = "suppressed (UserID s) (Join res)"
  let ?res' = "res\<lparr>Join := without ?S (Join res), Invite := without ?S (Invite res)\<rparr>"
  have sup: "frameID \<in> ?S"
    using assms(2-6) by (auto simp: suppressed_def is_join_event_def)
  have sp: "shouldProcessResponse s res since = (True, ?res')"
    by (rule shouldProcessResponse_result [OF assms(1)])
  have a: "frameID \<notin> fst ` set (Join (snd (shouldProcessResponse s res since)))"
    using sup by (simp add: sp keys_without)
  have b: "frameID \<notin> fst ` set (Invite (snd (shouldProcessResponse s res since)))"
    using sup by (simp add: sp keys_without)
  have c: "ProcessResponse go s stack res since w
           = ProcessResponse go s stack
               (res\<lparr>Join := AList.delete frameID (Join res),
                    Invite := AList.delete frameID (Invite res)\<rparr>) since w"
    by (simp add: ProcessResponse_def shouldProcessResponse_delete [OF assms(1) sup])
  have d: "Frames (store (fst (ProcessResponse go s stack res since w))) frameID = Frames (store w) frameID
            \<and> (\<exists>new. trace (fst (ProcessResponse go s stack res since w)) = trace w @ new
                  \<and> (\<forall>a \<in> set new. action_frame a \<noteq> Some frameID))"
    if lv: "frameID \<notin> fst ` set (Leave res)"
  proof -
    obtain v q where m: "main_pass go s ?res' w = (v, q)" by (cases "main_pass go s ?res' w")
    then have eff: "effects (\<lambda>a. action_frame a \<noteq> Some frameID) w v"
    proof (rule main_pass_effects)
      fix a k
      assume "k \<in> fst ` set (Join ?res') \<union> fst ` set (Invite ?res') \<union> fst ` set (Leave ?res')"
        and "action_frame a = Some k"
      with sup lv show "action_frame a \<noteq> Some frameID" by (auto simp: keys_without)
    qed
    have "fst (ProcessResponse go s stack res since w) = v"
      using m by (simp add: ProcessResponse_def sp split: option.splits)
    with eff show ?thesis unfolding effects_def by (metis (no_types, lifting))
  qed
  from a b c d show ?thesis by blast
qed

theorem join_race_suppression_witness:
  "''!f:x'' \<notin> fst ` set (Join (snd (shouldProcessResponse
        (OnEventType (NewDefaultSyncer ''@bot:x'') ''m.frame.message'' counting)
        (example_resp [(''!f:x'', example_joined [] [example_message, example_member ''join''])]
           [(''!f:x'', \<lparr>InviteState = [example_member ''invite'']\<rparr>)] []) ''s1'')))
   \<and> ''!f:x'' \<notin> fst ` set (Invite (snd (shouldProcessResponse
        (OnEventType (NewDefaultSyncer ''@bot:x'') ''m.frame.message'' counting)
        (example_resp [(''!f:x'', example_joined [] [example_message, example_member ''join''])]
           [(''!f:x'', \<lparr>InviteState = [example_member ''invite'']\<rparr>)] []) ''s1'')))
   \<and> Frames (store (fst (ProcessResponse PerLoop
        (OnEventType (NewDefaultSyncer ''@bot:x'') ''m.frame.message'' counting) ''stack''
        (example_resp [(''!f:x'', example_joined [] [example_message, example_member ''join''])]
           [(''!f:x'', \<lparr>InviteState = [example_member ''invite'']\<rparr>)] []) ''s1'' example_world))) ''!f:x''
       = None"
proof -
  let ?s = "OnEventType (NewDefaultSyncer ''@bot:x'') ''m.frame.message'' counting"
  let ?fd = "example_joined [] [example_message, example_member ''join'']"
  let ?res = "example_resp [(''!f:x'', ?fd)] [(''!f:x'', \<lparr>InviteState = [example_member ''invite'']\<rparr>)] []"
  have 1: "''s1'' \<noteq> []" by simp
  have 2: "(''!f:x'', ?fd) \<in> set (Join ?res)" by (simp add: example_resp_def)
  have 3: "example_member ''join'' \<in> set (JoinTimeline ?fd)" by (simp add: example_joined_def)
  have 4: "Type (example_member ''join'') = ''m.frame.member''" by (simp add: example_member_def)
  have 5: "StateKey (example_member ''join'') = Some (UserID ?s)" by (simp add: ex_defs)
  have 6: "Content (example_member ''join'') ''membership'' = Some (JString ''join'')"
    by (simp add: example_member_def)
  have 7: "''!f:x'' \<notin> fst ` set (Leave ?res)" by (simp add: example_resp_def)
  have 8: "Frames (store example_world) ''!f:x'' = None" by (simp add: ex_defs)
  note T = join_race_suppression [OF 1 2 3 4 5 6, where go = PerLoop and stack = "''stack''"
      and w = example_world]
  from T [THEN conjunct2, THEN conjunct2, THEN conjunct2] 7 8
  have "Frames (store (fst (ProcessResponse PerLoop ?s ''stack'' ?res ''s1'' example_world))) ''!f:x'' = None"
    by simp
  with T [THEN conjunct1] T [THEN conjunct2, THEN conjunct1] show ?thesis by (simp only: simp_thms)
qed

text \<open>
  C2 as stated fails in two places, both shown by one batch with two joined frames and a
  listener for membership events. The code compares the membership with \<^verbatim>\<open>join\<close>: the
  frame \<^verbatim>\<open>!f:x\<close>, whose membership event of the user says \<^verbatim>\<open>joined\<close>, stays in the joined
  bucket and the listener is called for its event. And the removal covers the joined and
  invited buckets only: the frame \<^verbatim>\<open>!g:x\<close>, whose membership event says \<^verbatim>\<open>join\<close>, is
  removed from the joined bucket, but the batch also carries it in the left bucket, and
  for the event there its state is updated and the listener is called. The run is the
  same with one variable per loop and with one per iteration but for the addresses.
\<close>

theorem join_race_counterexample:
  "fst ` set (Join (snd (shouldProcessResponse
        (OnEventType (NewDefaultSyncer ''@bot:x'') ''m.frame.member'' counting)
        (example_resp
           [(''!f:x'', example_joined [] [example_member ''joined'']),
            (''!g:x'', example_joined [] [example_member ''join''])]
           []
           [(''!g:x'', example_left [example_member ''leave''])]) ''s1''))) = {''!f:x''}
   \<and> trace (fst (ProcessResponse PerLoop
        (OnEventType (NewDefaultSyncer ''@bot:x'') ''m.frame.member'' counting) ''stack''
        (example_resp
           [(''!f:x'', example_joined [] [example_member ''joined'']),
            (''!g:x'', example_joined [] [example_member ''join''])]
           []
           [(''!g:x'', example_left [example_member ''leave''])]) ''s1''
        example_world))
     = [ALoadFrame ''!f:x'', ASaveFrame ''!f:x'',
        AListener ''m.frame.member'' 0 1 ((example_member ''joined'')\<lparr>FrameID := ''!f:x''\<rparr>),
        ALoadFrame ''!g:x'', ASaveFrame ''!g:x'',
        AUpdateState ''!g:x'' 3 ((example_member ''leave'')\<lparr>FrameID := ''!g:x''\<rparr>),
        AListener ''m.frame.member'' 0 3 ((example_member ''leave'')\<lparr>FrameID := ''!g:x''\<rparr>)]
   \<and> trace (fst (ProcessResponse PerIteration
        (OnEventType (NewDefaultSyncer ''@bot:x'') ''m.frame.member'' counting) ''stack''
        (example_resp
           [(''!f:x'', example_joined [] [example_member ''joined'']),
            (''!g:x'', example_joined [] [example_member ''join''])]
           []
           [(''!g:x'', example_left [example_member ''leave''])]) ''s1''
        example_world))
     = [ALoadFrame ''!f:x'', ASaveFrame ''!f:x'',
        AListener ''m.frame.member'' 0 0 ((example_member ''joined'')\<lparr>FrameID := ''!f:x''\<rparr>),
        ALoadFrame ''!g:x'', ASaveFrame ''!g:x'',
        AUpdateState ''!g:x'' 1 ((example_member ''leave'')\<lparr>FrameID := ''!g:x''\<rparr>),
        AListener ''m.frame.member'' 0 1 ((example_member ''leave'')\<lparr>FrameID := ''!g:x''\<rparr>)]"
  by (simp add: ProcessResponse_def ex_defs run_defs)




text \<open>
  What one variable per loop means for the state table: in the timeline below the member
  event of the user is followed by an event without a state-key. Both are assigned to the
  same variable, whose address the state table holds, so at the end the entry under the
  user points to the event without a state-key, which was never passed to
  \<^verbatim>\<open>UpdateState\<close>. With one variable per iteration it points to the member event.
\<close>

lemma range_variable_aliasing:
  "slot (fst (leave_pass PerLoop (NewDefaultSyncer ''@bot:x'' :: nat DefaultSyncer)
          (example_resp [] [] [(''!g:x'', example_left [example_member ''leave'', example_message])])
          example_world)) ''!g:x'' ''m.frame.member'' ''@bot:x'' = Some 0
   \<and> events (fst (leave_pass PerLoop (NewDefaultSyncer ''@bot:x'' :: nat DefaultSyncer)
          (example_resp [] [] [(''!g:x'', example_left [example_member ''leave'', example_message])])
          example_world)) 0 = example_message
   \<and> slot (fst (leave_pass PerIteration (NewDefaultSyncer ''@bot:x'' :: nat DefaultSyncer)
          (example_resp [] [] [(''!g:x'', example_left [example_member ''leave'', example_message])])
          example_world)) ''!g:x'' ''m.frame.member'' ''@bot:x'' = Some 0
   \<and> events (fst (leave_pass PerIteration (NewDefaultSyncer ''@bot:x'' :: nat DefaultSyncer)
          (example_resp [] [] [(''!g:x'', example_left [example_member ''leave'', example_message])])
          example_world)) 0 = (example_member ''leave'')\<lparr>FrameID := ''!g:x''\<rparr>"
  by (simp add: ex_defs run_defs slot_def GetStateEvent_def)

text \<open>
  C10. \<^verbatim>\<open>UpdateState\<close> dereferences the state-key without a check, and the loops over the
  state events of the joined and invited buckets call it for every event. So when a frame
  that the should-process check left in one of these two buckets has a state event with
  a nil state-key, \<^verbatim>\<open>UpdateState\<close> on a pointer to that event panics with the nil
  dereference, \<^verbatim>\<open>ProcessResponse\<close> never returns nil (the event is not skipped), and when
  no listener panics the error it returns is the recovered nil dereference.
\<close>

theorem null_state_key_panics:
  assumes "shouldProcessResponse s res since = (True, res')"
      and "((frameID, joined) \<in> set (Join res') \<and> e \<in> set (JoinState joined))
           \<or> ((frameID, invited) \<in> set (Invite res') \<and> e \<in> set (InviteState invited))"
      and "StateKey e = None"
  shows "snd (UpdateState (mem(p := e\<lparr>FrameID := frameID\<rparr>)) frame p) = Some nil_dereference
         \<and> (\<exists>r. snd (ProcessResponse go s stack res since w)
                  = Some (panic_error (UserID s) since r stack))
         \<and> (quiet s \<longrightarrow> snd (ProcessResponse go s stack res since w)
                  = Some (panic_error (UserID s) since nil_dereference stack))"
proof -
  obtain w' q where m: "main_pass go s res' w = (w', q)" by (cases "main_pass go s res' w")
  have "q \<noteq> None"
  proof
    assume "q = None"
    with m assms(2,3) show False
      using main_pass_None_join [of go s res' w w' frameID joined e]
            main_pass_None_invite [of go s res' w w' frameID invited e] by blast
  qed
  then obtain r where q: "q = Some r" by auto
  with m assms(1) have pr: "snd (ProcessResponse go s stack res since w)
      = Some (panic_error (UserID s) since r stack)"
    by (simp add: ProcessResponse_def)
  have "r = nil_dereference" if "quiet s"
    using m q that main_pass_panic by blast
  with pr show ?thesis using assms(3) by (auto simp: UpdateState_def Let_def)
qed

theorem null_state_key_panics_witness:
  "snd (ProcessResponse PerLoop (NewDefaultSyncer ''@bot:x'' :: nat DefaultSyncer) ''stack''
        (example_resp [(''!f:x'', example_joined [example_message] [])] [] []) ''s1'' example_world)
   = Some (panic_error ''@bot:x'' ''s1'' nil_dereference ''stack'')"
proof -
  let ?s = "NewDefaultSyncer ''@bot:x'' :: nat DefaultSyncer"
  let ?fd = "example_joined [example_message] []"
  let ?res = "example_resp [(''!f:x'', ?fd)] [] []"
  have 1: "shouldProcessResponse ?s ?res ''s1'' = (True, ?res)"
    by (simp add: ex_defs shouldProcessResponse_def)
  have 2: "((''!f:x'', ?fd) \<in> set (Join ?res) \<and> example_message \<in> set (JoinState ?fd))
           \<or> ((''!f:x'', \<lparr>InviteState = []\<rparr>) \<in> set (Invite ?res)
               \<and> example_message \<in> set (InviteState \<lparr>InviteState = []\<rparr>))"
    by (simp add: example_resp_def example_joined_def)
  have 3: "StateKey example_message = None" by (simp add: example_message_def)
  have 4: "quiet ?s" by (simp add: quiet_def NewDefaultSyncer_def)
  have 5: "UserID ?s = ''@bot:x''" by (simp add: NewDefaultSyncer_def)
  from null_state_key_panics [OF 1 2 3, where go = PerLoop and stack = "''stack''" and w = example_world] 4 5
  show ?thesis by simp
qed


section \<open>The sync loop\<close>

text \<open>
  C1. In any iteration: when the fetch succeeds and the generation token read after it
  differs from the token the loop captured, \<^verbatim>\<open>Sync\<close> returns nil at once, whether the
  response is nil or not. The only new entry of the log is the fetch: \<^verbatim>\<open>SaveNextBatch\<close>
  and \<^verbatim>\<open>ProcessResponse\<close> are not called, and the store is as before.
\<close>

theorem Sync_superseded:
  assumes "getSyncingID (interfere k cli) \<noteq> syncingID0"
  shows "sync_loop sy syncingID0 filterID nextBatch ((FetchOk resSync, k) # env) cli w
           = (Returned None, interfere k cli, emit (ASyncRequest nextBatch filterID) w)
         \<and> store (emit (ASyncRequest nextBatch filterID) w) = store w
         \<and> ustate (emit (ASyncRequest nextBatch filterID) w) = ustate w
         \<and> trace (emit (ASyncRequest nextBatch filterID) w)
             = trace w @ [ASyncRequest nextBatch filterID]"
  using assms by (simp add: emit_def)

theorem Sync_superseded_witness:
  "sync_loop (DefaultSyncer_Syncer PerLoop (NewDefaultSyncer ''@bot:x'') []) 1 ''f1'' ''s1''
      [(FetchOk (Some (example_resp [] [] [])), Suc 0)] \<lparr>cliUserID = ''@bot:x'', syncingID = 1\<rparr> example_world
   = (Returned None, \<lparr>cliUserID = ''@bot:x'', syncingID = 2\<rparr>,
      example_world\<lparr>trace := [ASyncRequest ''s1'' ''f1'']\<rparr>)"
proof -
  have a: "getSyncingID (interfere (Suc 0) \<lparr>cliUserID = ''@bot:x'', syncingID = 1\<rparr>) \<noteq> 1"
    by (simp add: getSyncingID_def interfere_def StopSync_def incrementSyncingID_def)
  have b: "interfere (Suc 0) \<lparr>cliUserID = ''@bot:x'', syncingID = 1\<rparr>
             = \<lparr>cliUserID = ''@bot:x'', syncingID = 2\<rparr>"
    by (simp add: interfere_def StopSync_def incrementSyncingID_def)
  show ?thesis
    using Sync_superseded [OF a, where sy = "DefaultSyncer_Syncer PerLoop (NewDefaultSyncer ''@bot:x'') []"
        and filterID = "''f1''" and nextBatch = "''s1''" and resSync = "Some (example_resp [] [] [])"
        and env = "[]" and w = example_world] b
    by (simp add: emit_def example_world_def)
qed




text \<open>
  C5. In any iteration whose fetch fails: when \<^verbatim>\<open>OnFailedSync\<close> returns a duration \<open>d\<close>
  and nil, the loop sleeps \<open>d\<close> and goes on with the same since position and filter, the
  store untouched; when it returns an error, \<^verbatim>\<open>Sync\<close> returns that error and the log
  ends with the call of the policy, so no further fetch is issued.
\<close>

theorem Sync_fetch_failure:
  "(OnFailedSync_impl sy resSync err (ustate w) = (u', d, None) \<longrightarrow>
      sync_loop sy syncingID0 filterID nextBatch ((FetchFailed resSync err, k) # env) cli w
        = sync_loop sy syncingID0 filterID nextBatch env (interfere k cli)
            (w\<lparr>ustate := u',
               trace := trace w @ [ASyncRequest nextBatch filterID, AOnFailedSync err, ASleep d]\<rparr>))
   \<and> (OnFailedSync_impl sy resSync err (ustate w) = (u', d, Some e) \<longrightarrow>
      sync_loop sy syncingID0 filterID nextBatch ((FetchFailed resSync err, k) # env) cli w
        = (Returned (Some e), interfere k cli,
            w\<lparr>ustate := u', trace := trace w @ [ASyncRequest nextBatch filterID, AOnFailedSync err]\<rparr>))"
  by (simp add: emit_def)

theorem Sync_fetch_failure_witness:
  "sync_loop (example_syncer 1) 1 ''f1'' ''s1''
      [(FetchFailed None ''timeout'', 0), (FetchFailed None ''refused'', 0)]
      \<lparr>cliUserID = ''@bot:x'', syncingID = 1\<rparr> example_world
   = (Returned (Some ''gave up: refused''), \<lparr>cliUserID = ''@bot:x'', syncingID = 1\<rparr>,
      example_world\<lparr>ustate := 2,
         trace := [ASyncRequest ''s1'' ''f1'', AOnFailedSync ''timeout'', ASleep 5000000000,
                   ASyncRequest ''s1'' ''f1'', AOnFailedSync ''refused'']\<rparr>)"
proof -
  let ?cli = "\<lparr>cliUserID = ''@bot:x'', syncingID = 1\<rparr>"
  let ?w1 = "example_world\<lparr>ustate := Suc 0,
      trace := trace example_world @ [ASyncRequest ''s1'' ''f1'', AOnFailedSync ''timeout'', ASleep 5000000000]\<rparr>"
  have a: "OnFailedSync_impl (example_syncer 1) None ''timeout'' (ustate example_world)
             = (Suc 0, 5000000000, None)"
    by (simp add: example_syncer_def example_policy_def example_world_def)
  have b: "OnFailedSync_impl (example_syncer 1) None ''refused'' (ustate ?w1)
             = (2, 5000000000, Some ''gave up: refused'')"
    by (simp add: example_syncer_def example_policy_def example_world_def)
  have i: "interfere 0 ?cli = ?cli" by (simp add: interfere_def)
  have "sync_loop (example_syncer 1) 1 ''f1'' ''s1''
          [(FetchFailed None ''timeout'', 0), (FetchFailed None ''refused'', 0)] ?cli example_world
        = sync_loop (example_syncer 1) 1 ''f1'' ''s1''
          [(FetchFailed None ''refused'', 0)] ?cli ?w1"
    using Sync_fetch_failure [of "example_syncer 1" None "''timeout''" example_world "Suc 0" 5000000000
        1 "''f1''" "''s1''" 0 "[(FetchFailed None ''refused'', 0)]" ?cli] a i
    by (simp only:)
  also have "\<dots> = (Returned (Some ''gave up: refused''), ?cli,
       ?w1\<lparr>ustate := 2, trace := trace ?w1 @ [ASyncRequest ''s1'' ''f1'', AOnFailedSync ''refused'']\<rparr>)"
    using Sync_fetch_failure [of "example_syncer 1" None "''refused''" ?w1 2 5000000000
        1 "''f1''" "''s1''" 0 "[]" ?cli "''gave up: refused''"] b i
    by (simp only:)
  finally show ?thesis by (simp add: example_world_def)
qed

section \<open>Generation tokens\<close>

text \<open>
  C9, amended. As long as the counter does not pass \<open>2 ^ 32 - 1\<close>, that is, the value of
  the counter plus the number of calls stays below \<open>2 ^ 32\<close>, every token issued is
  strictly greater than every token issued before it and than the counter's value at the
  start.
\<close>

theorem issued_tokens_increasing:
  assumes "unat (syncingID cli) + length cs < 2 ^ 32"
  shows "sorted_wrt (<) (issued_tokens cli cs) \<and> (\<forall>t \<in> set (issued_tokens cli cs). syncingID cli < t)"
proof -
  have val: "unat (issued_tokens cli cs ! i) = unat (syncingID cli) + Suc i" if "i < length cs" for i
  proof -
    have "unat (syncingID cli) + Suc i < 2 ^ LENGTH(32)" using that assms by simp
    then have "unat (syncingID cli + of_nat (Suc i)) = unat (syncingID cli) + Suc i"
    proof -
      have "unat (word_of_nat (Suc i) :: 32 word) = Suc i"
      proof (rule of_nat_inverse [OF refl])
        show "Suc i < 2 ^ LENGTH(32)"
          using \<open>unat (syncingID cli) + Suc i < 2 ^ LENGTH(32)\<close> by linarith
      qed
      then show ?thesis
        using \<open>unat (syncingID cli) + Suc i < 2 ^ LENGTH(32)\<close>
              unat_add_lem [of "syncingID cli" "word_of_nat (Suc i)"] by (simp only:)
    qed
    with that show ?thesis by (simp add: issued_tokens_nth)
  qed
  have "issued_tokens cli cs ! i < issued_tokens cli cs ! j" if "i < j" "j < length cs" for i j
    using that val [of i] val [of j] by (simp add: word_less_nat_alt)
  then have a: "sorted_wrt (<) (issued_tokens cli cs)"
    by (simp add: sorted_wrt_iff_nth_less issued_tokens_length)
  have b: "syncingID cli < t" if "t \<in> set (issued_tokens cli cs)" for t
  proof -
    from that obtain i where "i < length cs" "t = issued_tokens cli cs ! i"
      by (auto simp: in_set_conv_nth issued_tokens_length)
    with val [of i] show ?thesis by (simp add: word_less_nat_alt)
  qed
  from a b show ?thesis by blast
qed

theorem issued_tokens_increasing_witness:
  "issued_tokens (NewClient ''@bot:x'') [CallSync, CallStopSync, CallSync] = [1, 2, 3]
   \<and> sorted_wrt (<) (issued_tokens (NewClient ''@bot:x'') [CallSync, CallStopSync, CallSync])"
proof -
  have "unat (syncingID (NewClient ''@bot:x'')) + length [CallSync, CallStopSync, CallSync] < 2 ^ 32"
    by (simp add: NewClient_def)
  from issued_tokens_increasing [OF this] show ?thesis
    by (simp add: NewClient_def incrementSyncingID_def)
qed

text \<open>
  C9 as stated fails: the counter is a \<^verbatim>\<open>uint32\<close> and wraps. Of \<open>2 ^ 32\<close> calls of
  \<^verbatim>\<open>StopSync\<close> on a new client the last one issues the token 0, which is smaller than
  the tokens issued before it.
\<close>

theorem issued_tokens_wrap:
  "\<not> sorted_wrt (<) (issued_tokens (NewClient ''@bot:x'') (replicate (2 ^ 32) CallStopSync))"
proof
  let ?ts = "issued_tokens (NewClient ''@bot:x'') (replicate (2 ^ 32) CallStopSync)"
  assume s: "sorted_wrt (<) ?ts"
  have len: "length ?ts = 2 ^ 32" by (simp only: issued_tokens_length length_replicate)
  have lt: "(0::nat) < 2 ^ 32 - 1" "(2 ^ 32 - 1 :: nat) < 2 ^ 32" by simp_all
  have "?ts ! 0 < ?ts ! (2 ^ 32 - 1)"
    using s lt len sorted_wrt_nth_less by metis
  moreover have "?ts ! 0 = 1"
    using issued_tokens_nth [of 0 "replicate (2 ^ 32) CallStopSync" "NewClient ''@bot:x''"]
    by (simp add: NewClient_def)
  moreover have "?ts ! (2 ^ 32 - 1) = 0"
    using issued_tokens_nth [of "2 ^ 32 - 1" "replicate (2 ^ 32) CallStopSync" "NewClient ''@bot:x''"]
    by (simp add: NewClient_def)
  ultimately show False by simp
qed


end
